theory Spec2Isabelle
  imports Complex_Main "HOL-Library.AList" "HOL-Library.Log_Nat"
begin

section \<open>Values of the persisted cache record\<close>

text \<open>
  The plugin keeps its cache record in \<^verbatim>\<open>.cache.json\<close> and reads it with
  \<^verbatim>\<open>json.load\<close>.  The model works on the parsed value: a JSON object is the Python
  dict that \<^verbatim>\<open>json.load\<close> builds, written as an association list with distinct keys
  in insertion order.  The record the plugin writes holds integers, strings, booleans and
  \<^verbatim>\<open>null\<close> only, so floating point numbers are left out of the value type.
\<close>

datatype json =
    JNull
  | JBool bool
  | JInt int
  | JStr string
  | JArr "json list"
  | JObj "(string \<times> json) list"

lemma size_json_in_obj:
  "(k, v) \<in> set d \<Longrightarrow> size (v::json) < Suc (size_list (size_prod (\<lambda>x. 0) size) d)"
  by (induction d) auto

lemma size_json_mem: "x \<in> set xs \<Longrightarrow> size (x::json) < Suc (size_list size xs)"
  by (induction xs) auto

text \<open>
  Python's \<^verbatim>\<open>==\<close> on such values.  It is not structural: \<^verbatim>\<open>True == 1\<close> and
  \<^verbatim>\<open>False == 0\<close> hold, and two dicts are equal when they have the same number of keys
  and every key of the first is a key of the second with an equal value.
\<close>

function (sequential) py_eq :: "json \<Rightarrow> json \<Rightarrow> bool" where
  "py_eq JNull JNull = True"
| "py_eq (JBool a) (JBool b) = (a = b)"
| "py_eq (JBool a) (JInt j) = ((if a then 1 else 0) = j)"
| "py_eq (JInt i) (JBool b) = (i = (if b then 1 else 0))"
| "py_eq (JInt i) (JInt j) = (i = j)"
| "py_eq (JStr s) (JStr t) = (s = t)"
| "py_eq (JArr xs) (JArr ys) =
     (length xs = length ys \<and> (\<forall>i < length xs. py_eq (xs ! i) (ys ! i)))"
| "py_eq (JObj d) (JObj e) =
     (length d = length e \<and>
      (\<forall>kv \<in> set d. case map_of e (fst kv) of None \<Rightarrow> False | Some w \<Rightarrow> py_eq (snd kv) w))"
| "py_eq _ _ = False"
  by pat_completeness auto
termination
  by (relation "measure (\<lambda>(a, b). size a)") (auto simp: size_json_in_obj size_json_mem)

datatype py_error =
    JSONDecodeError
  | AttributeError
  | FileNotFoundError
  | PermissionError
  | SameFileError
  | ZeroDivisionError
  | ValueError

section \<open>Configuration and its snapshot\<close>

text \<open>
  The fields of \<^verbatim>\<open>config_scheme\<close>.  The three size bounds default to \<^verbatim>\<open>None\<close>.
\<close>

record plugin_config =
  cache_dir :: string
  image_quality :: int
  image_max_width :: "int option"
  image_max_height :: "int option"
  video_crf :: int
  video_preset :: string
  video_max_width :: "int option"
  skip_images :: bool
  skip_videos :: bool
  max_workers :: int

text \<open>The defaults of \<^verbatim>\<open>config_scheme\<close>.\<close>

definition default_config :: plugin_config where
  "default_config =
     \<lparr>cache_dir = ''.mediacompressor_cache'', image_quality = 85, image_max_width = None,
      image_max_height = None, video_crf = 23, video_preset = ''medium'',
      video_max_width = None, skip_images = False, skip_videos = False, max_workers = 4\<rparr>"

definition json_opt_int :: "int option \<Rightarrow> json" where
  "json_opt_int v = (case v of None \<Rightarrow> JNull | Some i \<Rightarrow> JInt i)"

text \<open>\<^verbatim>\<open>_get_current_config\<close>: the eight settings that affect the compressed output.\<close>

definition get_current_config :: "plugin_config \<Rightarrow> json" where
  "get_current_config cfg = JObj
     [(''image_quality'', JInt (image_quality cfg)),
      (''image_max_width'', json_opt_int (image_max_width cfg)),
      (''image_max_height'', json_opt_int (image_max_height cfg)),
      (''video_crf'', JInt (video_crf cfg)),
      (''video_preset'', JStr (video_preset cfg)),
      (''video_max_width'', json_opt_int (video_max_width cfg)),
      (''skip_images'', JBool (skip_images cfg)),
      (''skip_videos'', JBool (skip_videos cfg))]"

section \<open>The cache and its record on disk\<close>

text \<open>
  A cache entry is the dict \<^verbatim>\<open>{'cached_filename': ..., 'original_hash': ...}\<close> that
  \<^verbatim>\<open>_process_media_file\<close> stores; the cache maps the hex digest of a file to its entry.
  It is a Python dict: an association list with distinct keys, in insertion order.
\<close>

type_synonym digest = string

record cache_entry =
  cached_filename :: string
  original_hash :: digest

type_synonym cache = "(digest \<times> cache_entry) list"

definition entry_json :: "cache_entry \<Rightarrow> json" where
  "entry_json e = JObj
     [(''cached_filename'', JStr (cached_filename e)),
      (''original_hash'', JStr (original_hash e))]"

definition cache_json :: "cache \<Rightarrow> json" where
  "cache_json c = JObj (map (\<lambda>(h, e). (h, entry_json e)) c)"

text \<open>
  The record file as \<^verbatim>\<open>_load_cache\<close> finds it: not there, there but not readable as
  JSON (\<^verbatim>\<open>open\<close> or \<^verbatim>\<open>json.load\<close> raises), or holding a JSON value.
\<close>

datatype record_file = Absent | Unreadable | Content json

text \<open>
  \<^verbatim>\<open>_save_cache\<close> builds \<^verbatim>\<open>{"config": ..., "files": self.cache}\<close> and dumps it;
  \<open>save_cache\<close> is the record file after a save that went through.  Its content is
  the value that was dumped: strings, integers, booleans and \<^verbatim>\<open>None\<close> under string
  keys come back from \<^verbatim>\<open>json.load\<close> as they went into \<^verbatim>\<open>json.dump\<close>.
\<close>

definition cache_data_of :: "plugin_config \<Rightarrow> cache \<Rightarrow> json" where
  "cache_data_of cfg c = JObj [(''config'', get_current_config cfg), (''files'', cache_json c)]"

definition save_cache :: "plugin_config \<Rightarrow> cache \<Rightarrow> record_file" where
  "save_cache cfg c = Content (cache_data_of cfg c)"

text \<open>
  \<^verbatim>\<open>_load_cache\<close>.  \<open>read_json\<close> is \<^verbatim>\<open>open\<close> followed by \<^verbatim>\<open>json.load\<close>;
  \<open>load_cache_try\<close> is the rest of the \<^verbatim>\<open>try\<close> block.  When the stored snapshot
  differs, the loop that prints the differences calls \<^verbatim>\<open>.get\<close> on the stored snapshot,
  which raises \<^verbatim>\<open>AttributeError\<close> unless it is a dict.  \<open>load_cache\<close> adds the
  \<^verbatim>\<open>exists\<close> test and the \<^verbatim>\<open>except Exception\<close> handler.  The value is what
  \<^verbatim>\<open>self.cache\<close> is set to; \<open>Inl\<close> would be an exception leaving the method.  The
  \<^verbatim>\<open>mkdir\<close> at its top is a no-op: \<^verbatim>\<open>on_config\<close>, the only caller, has created
  the directory on the line before.
\<close>

definition read_json :: "record_file \<Rightarrow> py_error + json" where
  "read_json rf =
     (case rf of
        Absent \<Rightarrow> Inl FileNotFoundError
      | Unreadable \<Rightarrow> Inl JSONDecodeError
      | Content j \<Rightarrow> Inr j)"

definition load_cache_try :: "plugin_config \<Rightarrow> json \<Rightarrow> py_error + json" where
  "load_cache_try cfg cache_data =
     (case cache_data of
        JObj d \<Rightarrow>
          (case map_of d ''config'' of
             Some stored \<Rightarrow>
               if \<not> py_eq stored (get_current_config cfg)
               then (case stored of JObj old \<Rightarrow> Inr (JObj []) | _ \<Rightarrow> Inl AttributeError)
               else Inr (case map_of d ''files'' of Some files \<Rightarrow> files | None \<Rightarrow> JObj [])
           | None \<Rightarrow> Inr (JObj []))
      | _ \<Rightarrow> Inr (JObj []))"

definition load_cache :: "plugin_config \<Rightarrow> record_file \<Rightarrow> py_error + json" where
  "load_cache cfg rf =
     (if rf \<noteq> Absent
      then (case read_json rf of
              Inl e \<Rightarrow> Inr (JObj [])
            | Inr cache_data \<Rightarrow>
                (case load_cache_try cfg cache_data of
                   Inl e \<Rightarrow> Inr (JObj [])
                 | Inr c \<Rightarrow> Inr c))
      else Inr (JObj []))"

text \<open>A record that is not a dict, or a dict without the \<^verbatim>\<open>"config"\<close> key.\<close>

definition lacks_config :: "json \<Rightarrow> bool" where
  "lacks_config j = (case j of JObj d \<Rightarrow> map_of d ''config'' = None | _ \<Rightarrow> True)"

section \<open>Paths, files and strings\<close>

text \<open>
  A path is the list of its components (pathlib's \<^verbatim>\<open>parts\<close>); \<^verbatim>\<open>dir / name\<close> appends
  one component, as it does for the names the plugin joins: a digest followed by a suffix.
  The file store maps a path to the bytes of the regular file there; characters are bytes.
\<close>

type_synonym path = "string list"
type_synonym bytes = string
type_synonym filesystem = "path \<Rightarrow> bytes option"

definition path_div :: "path \<Rightarrow> string \<Rightarrow> path" where
  "path_div d n = d @ [n]"

definition path_name :: "path \<Rightarrow> string" where
  "path_name p = (if p = [] then [] else last p)"

text \<open>\<^verbatim>\<open>str.rfind('.')\<close>, with \<open>None\<close> for Python's \<^verbatim>\<open>-1\<close>.\<close>

definition rfind_dot :: "string \<Rightarrow> nat option" where
  "rfind_dot n =
     (if CHR ''.'' \<in> set n
      then Some (length n - 1 - length (takeWhile (\<lambda>c. c \<noteq> CHR ''.'') (rev n)))
      else None)"

text \<open>
  pathlib's \<^verbatim>\<open>suffix\<close>: the name from its last dot on, unless that dot is the first or
  the last character of the name.
\<close>

definition path_suffix :: "path \<Rightarrow> string" where
  "path_suffix p =
     (let n = path_name p
      in case rfind_dot n of
           None \<Rightarrow> []
         | Some i \<Rightarrow> if 0 < i \<and> i < length n - 1 then drop i n else [])"

fun join_parts :: "string list \<Rightarrow> string" where
  "join_parts [] = []"
| "join_parts [x] = x"
| "join_parts (x # y # ys) = x @ ''/'' @ join_parts (y # ys)"

text \<open>\<^verbatim>\<open>str(path)\<close>.\<close>

definition path_str :: "path \<Rightarrow> string" where
  "path_str p = join_parts p"

text \<open>\<^verbatim>\<open>str.lower\<close>, on the ASCII letters.\<close>

definition lower_char :: "char \<Rightarrow> char" where
  "lower_char c =
     (let n = (of_char c :: nat) in if 65 \<le> n \<and> n \<le> 90 then char_of (n + 32) else c)"

definition lower :: "string \<Rightarrow> string" where
  "lower s = map lower_char s"

text \<open>\<^verbatim>\<open>str(n)\<close> for an integer.\<close>

fun digits_of :: "nat \<Rightarrow> string" where
  "digits_of n =
     (if n < 10 then [char_of (48 + n)] else digits_of (n div 10) @ [char_of (48 + n mod 10)])"

definition str_int :: "int \<Rightarrow> string" where
  "str_int i = (if i < 0 then ''-'' @ digits_of (nat (- i)) else digits_of (nat i))"

definition IMAGE_EXTENSIONS :: "string list" where
  "IMAGE_EXTENSIONS = [''.png'', ''.jpg'', ''.jpeg'', ''.gif'', ''.webp'', ''.bmp'']"

definition VIDEO_EXTENSIONS :: "string list" where
  "VIDEO_EXTENSIONS = [''.mp4'', ''.webm'', ''.ogg'', ''.mov'', ''.avi'', ''.mkv'']"

section \<open>Hashing a file\<close>

text \<open>
  \<^verbatim>\<open>_compute_file_hash\<close>.  A hashlib object is modelled by the bytes it has been fed:
  \<^verbatim>\<open>update\<close> appends a chunk (hashlib documents that repeated calls are equivalent to one
  call with the concatenation), and \<^verbatim>\<open>hexdigest\<close> applies the digest function, which the
  model takes as a parameter \<open>H\<close> (SHA-256 as hex).  The loop
  \<^verbatim>\<open>for chunk in iter(lambda: f.read(8192), b'')\<close> reads up to 8192 bytes from the current
  position and stops at the first empty read; \<open>rest\<close> is what the file still holds after the
  read position.
\<close>

definition sha256_update :: "bytes \<Rightarrow> bytes \<Rightarrow> bytes" where
  "sha256_update sha256 chunk = sha256 @ chunk"

definition sha256_hexdigest :: "(bytes \<Rightarrow> digest) \<Rightarrow> bytes \<Rightarrow> digest" where
  "sha256_hexdigest H sha256 = H sha256"

function feed_chunks :: "bytes \<Rightarrow> bytes \<Rightarrow> bytes" where
  "feed_chunks sha256 rest =
     (let chunk = take 8192 rest
      in if chunk = [] then sha256
         else feed_chunks (sha256_update sha256 chunk) (drop 8192 rest))"
  by pat_completeness auto
termination
  by (relation "measure (\<lambda>(sha256, rest). length rest)") auto

definition compute_file_hash :: "(bytes \<Rightarrow> digest) \<Rightarrow> filesystem \<Rightarrow> path \<Rightarrow> py_error + digest" where
  "compute_file_hash H fs file_path =
     (case fs file_path of
        None \<Rightarrow> Inl FileNotFoundError
      | Some content \<Rightarrow> Inr (sha256_hexdigest H (feed_chunks [] content)))"

section \<open>Floating point, as far as the resize computation needs it\<close>

text \<open>
  A Python float is an IEEE double.  The model takes a double to be the rational it denotes
  and \<open>fl\<close> to be rounding to the nearest double, ties to even, with a 53 bit significand;
  the exponent range is not bounded, which no ratio or product of image sizes reaches.
  \<open>floor_log2 x\<close> is the exponent of the binade of a positive \<open>x\<close>.
\<close>

definition round_half_even :: "rat \<Rightarrow> int" where
  "round_half_even y =
     (let f = \<lfloor>y\<rfloor>; d = y - of_int f
      in if d < 1 / 2 then f else if 1 / 2 < d then f + 1 else if even f then f else f + 1)"

definition floor_log2 :: "rat \<Rightarrow> int" where
  "floor_log2 x =
     (let (a, b) = quotient_of x;
          d = int (floorlog 2 (nat a)) - int (floorlog 2 (nat b))
      in if 2 powi d \<le> x then d else d - 1)"

definition fl :: "rat \<Rightarrow> rat" where
  "fl x =
     (if x = 0 then 0
      else let e = floor_log2 \<bar>x\<bar> - 52;
               m = round_half_even (\<bar>x\<bar> / 2 powi e)
           in sgn x * of_int m * 2 powi e)"

text \<open>
  \<^verbatim>\<open>a / b\<close> on two ints is the correctly rounded quotient; \<^verbatim>\<open>n * x\<close> on an int and
  a float converts the int and rounds the product; \<^verbatim>\<open>min(a, b)\<close> keeps \<open>a\<close> unless
  \<open>b\<close> is smaller; \<^verbatim>\<open>int(x)\<close> truncates towards zero.
\<close>

definition py_truediv :: "int \<Rightarrow> int \<Rightarrow> py_error + rat" where
  "py_truediv a b = (if b = 0 then Inl ZeroDivisionError else Inr (fl (of_int a / of_int b)))"

definition py_int_mul_float :: "int \<Rightarrow> rat \<Rightarrow> rat" where
  "py_int_mul_float n x = fl (fl (of_int n) * x)"

definition py_min :: "rat \<Rightarrow> rat \<Rightarrow> rat" where
  "py_min a b = (if b < a then b else a)"

definition py_int :: "rat \<Rightarrow> int" where
  "py_int x = (if 0 \<le> x then \<lfloor>x\<rfloor> else \<lceil>x\<rceil>)"

text \<open>
  The resize step of \<^verbatim>\<open>_compress_image\<close>: \<open>scale_factor\<close> is the value of
  \<^verbatim>\<open>scale\<close> after the two bound tests, \<open>resize_target\<close> the size handed to
  \<^verbatim>\<open>img.resize\<close>, or \<open>None\<close> when the image is not resized.
\<close>

definition scale_by_bound :: "int option \<Rightarrow> int \<Rightarrow> rat \<Rightarrow> py_error + rat" where
  "scale_by_bound bound extent scale =
     (case bound of
        None \<Rightarrow> Inr scale
      | Some b \<Rightarrow>
          if extent > b
          then (case py_truediv b extent of Inl e \<Rightarrow> Inl e | Inr r \<Rightarrow> Inr (py_min scale r))
          else Inr scale)"

definition scale_factor :: "int option \<Rightarrow> int option \<Rightarrow> int \<times> int \<Rightarrow> py_error + rat" where
  "scale_factor max_width max_height dims =
     (case scale_by_bound max_width (fst dims) 1 of
        Inl e \<Rightarrow> Inl e
      | Inr scale \<Rightarrow> scale_by_bound max_height (snd dims) scale)"

definition resize_target ::
  "int option \<Rightarrow> int option \<Rightarrow> int \<times> int \<Rightarrow> py_error + (int \<times> int) option" where
  "resize_target max_width max_height dims =
     (if max_width \<noteq> None \<or> max_height \<noteq> None
      then (case scale_factor max_width max_height dims of
              Inl e \<Rightarrow> Inl e
            | Inr scale \<Rightarrow>
                if scale < 1
                then Inr (Some (py_int (py_int_mul_float (fst dims) scale),
                                py_int (py_int_mul_float (snd dims) scale)))
                else Inr None)
      else Inr None)"

section \<open>The world outside the plugin\<close>

text \<open>
  Pillow, ffmpeg and the file system's permissions are not part of the repository; the model
  takes them as an environment.  An image is a value of a type \<open>'img\<close> the plugin only
  hands to Pillow.  An operation that can raise has an optional result, \<open>None\<close> for the
  exception.  \<open>pil_orient\<close> is the body of \<^verbatim>\<open>_fix_image_orientation\<close>, whose own
  \<^verbatim>\<open>try\<close> swallows every exception; \<open>pil_flatten\<close> is the paste onto a white RGB
  background.  \<^verbatim>\<open>img.save\<close> either writes the encoded bytes to the path it is given or
  raises, possibly leaving a partial file there; ffmpeg exits with a return code and may
  have written its output path, the last argument of its command, or cannot be started.
\<close>

datatype save_result = Saved bytes | SaveFailed "bytes option"

datatype proc_result = SpawnFailed | Exited int "bytes option"

record 'img environment =
  sha256_of :: "bytes \<Rightarrow> digest"
  writable :: "path \<Rightarrow> bool"
  pil_open :: "bytes \<Rightarrow> 'img option"
  pil_orient :: "'img \<Rightarrow> 'img"
  pil_mode :: "'img \<Rightarrow> string"
  pil_flatten :: "'img \<Rightarrow> 'img option"
  pil_size :: "'img \<Rightarrow> int \<times> int"
  pil_resize :: "'img \<Rightarrow> int \<times> int \<Rightarrow> 'img option"
  pil_save :: "'img \<Rightarrow> string \<Rightarrow> (string \<times> json) list \<Rightarrow> save_result"
  ffmpeg_found :: bool
  ffmpeg_run :: "string list \<Rightarrow> bytes option \<Rightarrow> proc_result"

text \<open>
  What a task does to the world and to the shared cache, in order: the observable steps of
  \<^verbatim>\<open>_process_media_file\<close> and of the two backends.
\<close>

datatype event =
    HashFile path
  | LockAcquire
  | LockRelease
  | CacheLookup digest
  | CacheInsert digest
  | PathExists path
  | CopyFile path path
  | PilOpen path
  | PilSave path
  | FfmpegWhich
  | FfmpegRun "string list"

text \<open>
  \<^verbatim>\<open>shutil.copy2(src, dst)\<close>: raises when source and destination are the same file,
  when the source is missing or when the destination cannot be written.
\<close>

definition copy2 :: "'img environment \<Rightarrow> filesystem \<Rightarrow> path \<Rightarrow> path \<Rightarrow> py_error + filesystem" where
  "copy2 env fs src dst =
     (case fs src of
        None \<Rightarrow> Inl FileNotFoundError
      | Some content \<Rightarrow>
          if src = dst then Inl SameFileError
          else if \<not> writable env dst then Inl PermissionError
          else Inr (fs(dst \<mapsto> content)))"

section \<open>The image backend\<close>

text \<open>
  \<^verbatim>\<open>_compress_image\<close> up to the save, in two parts.  \<open>load_image\<close> opens the
  file, fixes the orientation and flattens an image with alpha or a palette that goes to
  JPEG.  \<open>resize_image\<close> is the block under \<^verbatim>\<open># Resize if needed\<close>: it reads
  \<^verbatim>\<open>img.size\<close>, computes the target and, if there is one, calls
  \<^verbatim>\<open>img.resize(new_size, ...)\<close>.  \<open>prepare_image\<close> is the one after the other: the
  image that \<^verbatim>\<open>img.save\<close> is called on.  \<open>None\<close> is an exception, which the
  \<^verbatim>\<open>except\<close> clause of \<^verbatim>\<open>_compress_image\<close> turns into the result \<^verbatim>\<open>None\<close>.
\<close>

definition load_image :: "'img environment \<Rightarrow> string \<Rightarrow> bytes \<Rightarrow> 'img option" where
  "load_image env suffix content =
     (case pil_open env content of
        None \<Rightarrow> None
      | Some opened \<Rightarrow>
          let img = pil_orient env opened
          in if pil_mode env img \<in> {''RGBA'', ''LA'', ''P''} \<and>
                lower suffix \<in> {''.jpg'', ''.jpeg''}
             then pil_flatten env img else Some img)"

definition resize_image :: "'img environment \<Rightarrow> plugin_config \<Rightarrow> 'img \<Rightarrow> 'img option" where
  "resize_image env cfg img =
     (case resize_target (image_max_width cfg) (image_max_height cfg) (pil_size env img) of
        Inl e \<Rightarrow> None
      | Inr None \<Rightarrow> Some img
      | Inr (Some new_size) \<Rightarrow> pil_resize env img new_size)"

definition prepare_image :: "'img environment \<Rightarrow> plugin_config \<Rightarrow> string \<Rightarrow> bytes \<Rightarrow> 'img option" where
  "prepare_image env cfg suffix content =
     (case load_image env suffix content of
        None \<Rightarrow> None
      | Some img \<Rightarrow> resize_image env cfg img)"

definition save_kwargs :: "plugin_config \<Rightarrow> string \<Rightarrow> (string \<times> json) list" where
  "save_kwargs cfg suffix =
     (let ext = lower suffix
      in if ext \<in> {''.jpg'', ''.jpeg''}
         then [(''optimize'', JBool True), (''quality'', JInt (image_quality cfg))]
         else if ext = ''.png''
         then [(''optimize'', JBool True), (''compress_level'', JInt 9)]
         else if ext = ''.webp''
         then [(''optimize'', JBool True), (''quality'', JInt (image_quality cfg))]
         else [(''optimize'', JBool True)])"

text \<open>
  The compression statistics divide by the size of the original, so an empty original raises
  \<^verbatim>\<open>ZeroDivisionError\<close> inside the \<^verbatim>\<open>try\<close>, after the artifact has been written;
  \<open>stats_ok\<close> says that the two \<^verbatim>\<open>stat\<close> calls and the division go through.
\<close>

definition stats_ok :: "filesystem \<Rightarrow> path \<Rightarrow> path \<Rightarrow> bool" where
  "stats_ok fs original cached_path =
     (case fs original of
        None \<Rightarrow> False
      | Some content \<Rightarrow> fs cached_path \<noteq> None \<and> length content \<noteq> 0)"

text \<open>
  \<^verbatim>\<open>_compress_image\<close>: the returned path (or \<^verbatim>\<open>None\<close>), the file store afterwards
  and the steps taken.
\<close>

definition compress_image ::
  "'img environment \<Rightarrow> plugin_config \<Rightarrow> path \<Rightarrow> filesystem \<Rightarrow> path \<Rightarrow> digest
     \<Rightarrow> path option \<times> filesystem \<times> event list" where
  "compress_image env cfg cdir fs image_path file_hash =
     (case fs image_path of
        None \<Rightarrow> (None, fs, [PilOpen image_path])
      | Some content \<Rightarrow>
          (case prepare_image env cfg (path_suffix image_path) content of
             None \<Rightarrow> (None, fs, [PilOpen image_path])
           | Some img \<Rightarrow>
               let cached_filename = file_hash @ path_suffix image_path;
                   cached_path = path_div cdir cached_filename;
                   steps = [PilOpen image_path, PilSave cached_path]
               in (case pil_save env img cached_filename
                          (save_kwargs cfg (path_suffix image_path)) of
                     SaveFailed left \<Rightarrow>
                       (None, (case left of None \<Rightarrow> fs | Some part \<Rightarrow> fs(cached_path \<mapsto> part)),
                        steps)
                   | Saved encoded \<Rightarrow>
                       let fs' = fs(cached_path \<mapsto> encoded)
                       in if stats_ok fs' image_path cached_path
                          then (Some cached_path, fs', steps)
                          else (None, fs', steps))))"

section \<open>The video backend\<close>

text \<open>The ffmpeg command line that \<^verbatim>\<open>_compress_video\<close> builds.\<close>

definition ffmpeg_cmd :: "plugin_config \<Rightarrow> path \<Rightarrow> path \<Rightarrow> string list" where
  "ffmpeg_cmd cfg video_path cached_path =
     [''ffmpeg'', ''-i'', path_str video_path, ''-y''] @
     [''-c:v'', ''libx264''] @
     [''-crf'', str_int (video_crf cfg)] @
     [''-preset'', video_preset cfg] @
     (case video_max_width cfg of
        None \<Rightarrow> []
      | Some w \<Rightarrow>
          if w = 0 then []
          else [''-vf'', ''scale='' @ [CHR 0x27] @ ''min('' @ str_int w @ '',iw)'' @ [CHR 0x27] @ '':-2'']) @
     [''-c:a'', ''aac'', ''-b:a'', ''128k''] @
     [path_str cached_path]"

definition compress_video ::
  "'img environment \<Rightarrow> plugin_config \<Rightarrow> path \<Rightarrow> filesystem \<Rightarrow> path \<Rightarrow> digest
     \<Rightarrow> path option \<times> filesystem \<times> event list" where
  "compress_video env cfg cdir fs video_path file_hash =
     (if \<not> ffmpeg_found env then (None, fs, [FfmpegWhich])
      else
        let cached_filename = file_hash @ path_suffix video_path;
            cached_path = path_div cdir cached_filename;
            cmd = ffmpeg_cmd cfg video_path cached_path;
            steps = [FfmpegWhich, FfmpegRun cmd]
        in (case ffmpeg_run env cmd (fs video_path) of
              SpawnFailed \<Rightarrow> (None, fs, steps)
            | Exited returncode out \<Rightarrow>
                let fs' = (case out of None \<Rightarrow> fs | Some written \<Rightarrow> fs(cached_path \<mapsto> written))
                in if returncode = 0 \<and> fs' cached_path \<noteq> None
                   then if stats_ok fs' video_path cached_path
                        then (Some cached_path, fs', steps)
                        else (None, fs', steps)
                   else (None, fs', steps)))"

section \<open>One task\<close>

text \<open>
  The state a task works on: the file store and \<^verbatim>\<open>self.cache\<close>.
\<close>

record plugin_state =
  files :: filesystem
  cache :: cache

text \<open>
  The block under \<^verbatim>\<open>with self.cache_lock\<close> that looks the digest up: the cached file
  to copy, if the digest has an entry and the file of that entry exists, and the steps.
\<close>

definition lookup_cached :: "path \<Rightarrow> plugin_state \<Rightarrow> digest \<Rightarrow> path option \<times> event list" where
  "lookup_cached cdir st file_hash =
     (case map_of (cache st) file_hash of
        None \<Rightarrow> (None, [CacheLookup file_hash])
      | Some cache_entry \<Rightarrow>
          let cached_file = path_div cdir (cached_filename cache_entry)
          in if files st cached_file \<noteq> None
             then (Some cached_file, [CacheLookup file_hash, PathExists cached_file])
             else (None, [CacheLookup file_hash, PathExists cached_file]))"

text \<open>
  The \<^verbatim>\<open>if\<close>/\<^verbatim>\<open>elif\<close>/\<^verbatim>\<open>else\<close> that picks the backend; \<open>None\<close> is the
  \<^verbatim>\<open>else: return False\<close>.
\<close>

definition compress_media ::
  "'img environment \<Rightarrow> plugin_config \<Rightarrow> path \<Rightarrow> filesystem \<Rightarrow> path \<Rightarrow> string \<Rightarrow> digest
     \<Rightarrow> (path option \<times> filesystem \<times> event list) option" where
  "compress_media env cfg cdir fs media_file ext file_hash =
     (if ext \<in> set IMAGE_EXTENSIONS then Some (compress_image env cfg cdir fs media_file file_hash)
      else if ext \<in> set VIDEO_EXTENSIONS
      then Some (compress_video env cfg cdir fs media_file file_hash)
      else None)"

text \<open>
  The end of \<^verbatim>\<open>_process_media_file\<close>, from \<^verbatim>\<open>if compressed_file and ...\<close> on:
  \<open>fs\<close> is the file store the backend left.
\<close>

definition store_compressed ::
  "'img environment \<Rightarrow> plugin_state \<Rightarrow> filesystem \<Rightarrow> path \<Rightarrow> digest \<Rightarrow> path option
     \<Rightarrow> (py_error + bool) \<times> plugin_state \<times> event list" where
  "store_compressed env st fs media_file file_hash compressed_file =
     (case compressed_file of
        None \<Rightarrow> (Inr False, st\<lparr>files := fs\<rparr>, [])
      | Some compressed \<Rightarrow>
          if fs compressed \<noteq> None
          then
            let entry = \<lparr>cached_filename = path_name compressed, original_hash = file_hash\<rparr>;
                st' = \<lparr>files = fs, cache = AList.update file_hash entry (cache st)\<rparr>;
                steps = [PathExists compressed, LockAcquire, CacheInsert file_hash, LockRelease,
                         CopyFile compressed media_file]
            in (case copy2 env fs compressed media_file of
                  Inl e \<Rightarrow> (Inl e, st', steps)
                | Inr fs' \<Rightarrow> (Inr True, st'\<lparr>files := fs'\<rparr>, steps))
          else (Inr False, st\<lparr>files := fs\<rparr>, [PathExists compressed]))"

text \<open>
  \<^verbatim>\<open>_process_media_file\<close>.  The result is \<open>Inr True\<close> (processed), \<open>Inr False\<close>
  (skipped) or \<open>Inl\<close> an exception that leaves the task.  An exception under
  \<^verbatim>\<open>with self.cache_lock\<close> releases the lock on its way out.
\<close>

definition process_media_file ::
  "'img environment \<Rightarrow> plugin_config \<Rightarrow> path \<Rightarrow> plugin_state \<Rightarrow> path
     \<Rightarrow> (py_error + bool) \<times> plugin_state \<times> event list" where
  "process_media_file env cfg cdir st media_file =
     (let ext = lower (path_suffix media_file)
      in if ext \<in> set IMAGE_EXTENSIONS \<and> skip_images cfg then (Inr False, st, [])
         else if ext \<in> set VIDEO_EXTENSIONS \<and> skip_videos cfg then (Inr False, st, [])
         else
           (case compute_file_hash (sha256_of env) (files st) media_file of
              Inl e \<Rightarrow> (Inl e, st, [HashFile media_file])
            | Inr file_hash \<Rightarrow>
                (case lookup_cached cdir st file_hash of
                   (Some cached_file, looked) \<Rightarrow>
                     let steps = [HashFile media_file, LockAcquire] @ looked @
                                 [CopyFile cached_file media_file, LockRelease]
                     in (case copy2 env (files st) cached_file media_file of
                           Inl e \<Rightarrow> (Inl e, st, steps)
                         | Inr fs' \<Rightarrow> (Inr False, st\<lparr>files := fs'\<rparr>, steps))
                 | (None, looked) \<Rightarrow>
                     let steps = [HashFile media_file, LockAcquire] @ looked @ [LockRelease]
                     in (case compress_media env cfg cdir (files st) media_file ext file_hash of
                           None \<Rightarrow> (Inr False, st, steps)
                         | Some (compressed_file, fs, backend) \<Rightarrow>
                             (case store_compressed env st fs media_file file_hash
                                     compressed_file of
                                (r, st', stored) \<Rightarrow> (r, st', steps @ backend @ stored))))))"

section \<open>Pruning and the run\<close>

text \<open>
  \<^verbatim>\<open>_clean_orphaned_cache\<close>.  It has no \<^verbatim>\<open>return\<close> statement: what it leaves is the
  pruned cache and, when at least one entry went, one printed line with the number of
  entries removed.  The lookup of a key taken from the dict's own keys cannot fail.
\<close>

datatype message = Cleaned nat

definition orphaned_keys :: "path \<Rightarrow> filesystem \<Rightarrow> cache \<Rightarrow> digest list" where
  "orphaned_keys cdir fs c =
     filter (\<lambda>file_hash.
        case map_of c file_hash of
          None \<Rightarrow> False
        | Some cache_entry \<Rightarrow> fs (path_div cdir (cached_filename cache_entry)) = None)
       (map fst c)"

definition clean_orphaned_cache :: "path \<Rightarrow> filesystem \<Rightarrow> cache \<Rightarrow> cache \<times> message list" where
  "clean_orphaned_cache cdir fs c =
     (let orphaned = orphaned_keys cdir fs c
      in (foldl (\<lambda>c' file_hash. AList.delete file_hash c') c orphaned,
          if orphaned \<noteq> [] then [Cleaned (length orphaned)] else []))"

text \<open>
  The tasks of one run.  The thread pool runs them concurrently; the model runs them one
  after the other in the order of \<open>media_files\<close>, which is one of the schedules the pool
  can produce.  \<open>count_result\<close> is the body of the loop over the completed futures.
\<close>

fun run_tasks ::
  "'img environment \<Rightarrow> plugin_config \<Rightarrow> path \<Rightarrow> plugin_state \<Rightarrow> path list
     \<Rightarrow> (py_error + bool) list \<times> plugin_state \<times> event list" where
  "run_tasks env cfg cdir st [] = ([], st, [])"
| "run_tasks env cfg cdir st (media_file # rest) =
     (case process_media_file env cfg cdir st media_file of
        (r, st', steps) \<Rightarrow>
          (case run_tasks env cfg cdir st' rest of
             (rs, st'', later) \<Rightarrow> (r # rs, st'', steps @ later)))"

definition count_result :: "nat \<times> nat \<times> nat \<Rightarrow> py_error + bool \<Rightarrow> nat \<times> nat \<times> nat" where
  "count_result counts r =
     (case counts of
        (processed, skipped, errors) \<Rightarrow>
          (case r of
             Inr True \<Rightarrow> (processed + 1, skipped, errors)
           | Inr False \<Rightarrow> (processed, skipped + 1, errors)
           | Inl e \<Rightarrow> (processed, skipped, errors + 1)))"

definition tally :: "(py_error + bool) list \<Rightarrow> nat \<times> nat \<times> nat" where
  "tally results = foldl count_result (0, 0, 0) results"



text \<open>
  \<^verbatim>\<open>on_post_build\<close>, from the list of media files it has found.  With no media file
  the method returns at once.  Otherwise it prunes the cache and creates the thread pool:
  \<^verbatim>\<open>ThreadPoolExecutor(max_workers=max_workers)\<close> raises \<^verbatim>\<open>ValueError\<close> when
  \<open>max_workers\<close> is not positive, before any task is submitted, and the exception leaves
  the method, so that nothing is tallied and the cache is not saved.  The result is the
  summary (processed, skipped, errors), \<open>None\<close> for the early return, or the exception;
  the state; the record file; the steps of the tasks.
\<close>

definition on_post_build ::
  "'img environment \<Rightarrow> plugin_config \<Rightarrow> path \<Rightarrow> plugin_state \<Rightarrow> record_file \<Rightarrow> path list
     \<Rightarrow> (py_error + (nat \<times> nat \<times> nat) option) \<times> plugin_state \<times> record_file \<times> event list" where
  "on_post_build env cfg cdir st rf media_files =
     (if media_files = [] then (Inr None, st, rf, [])
      else
        (case clean_orphaned_cache cdir (files st) (cache st) of
           (pruned, printed) \<Rightarrow>
             if max_workers cfg \<le> 0 then (Inl ValueError, st\<lparr>cache := pruned\<rparr>, rf, [])
             else
               (case run_tasks env cfg cdir (st\<lparr>cache := pruned\<rparr>) media_files of
                  (results, st', steps) \<Rightarrow>
                    (Inr (Some (tally results)), st', save_cache cfg (cache st'), steps))))"

section \<open>Notions the properties are stated with\<close>

text \<open>
  \<^verbatim>\<open>hashlib.sha256(content).hexdigest()\<close>: the digest of the whole content, fed in one
  piece.
\<close>

definition one_shot_digest :: "(bytes \<Rightarrow> digest) \<Rightarrow> bytes \<Rightarrow> digest" where
  "one_shot_digest H content = sha256_hexdigest H (sha256_update [] content)"

text \<open>The kind of a media file, as the tests of \<^verbatim>\<open>_process_media_file\<close> infer it.\<close>

definition is_image :: "path \<Rightarrow> bool" where
  "is_image media_file \<longleftrightarrow> lower (path_suffix media_file) \<in> set IMAGE_EXTENSIONS"

definition is_video :: "path \<Rightarrow> bool" where
  "is_video media_file \<longleftrightarrow> lower (path_suffix media_file) \<in> set VIDEO_EXTENSIONS"

text \<open>
  The task for \<open>media_file\<close>, started in the state \<open>st\<close>, gets as far as a compression
  backend, and the backend returns \<^verbatim>\<open>None\<close>.
\<close>

definition backend_fails ::
  "'img environment \<Rightarrow> plugin_config \<Rightarrow> path \<Rightarrow> plugin_state \<Rightarrow> path \<Rightarrow> bool" where
  "backend_fails env cfg cdir st media_file =
     (let ext = lower (path_suffix media_file)
      in \<not> (ext \<in> set IMAGE_EXTENSIONS \<and> skip_images cfg) \<and>
         \<not> (ext \<in> set VIDEO_EXTENSIONS \<and> skip_videos cfg) \<and>
         (case compute_file_hash (sha256_of env) (files st) media_file of
            Inl e \<Rightarrow> False
          | Inr file_hash \<Rightarrow>
              fst (lookup_cached cdir st file_hash) = None \<and>
              (case compress_media env cfg cdir (files st) media_file ext file_hash of
                 None \<Rightarrow> False
               | Some (compressed_file, fs, backend) \<Rightarrow> compressed_file = None)))"


text \<open>
  The steps of a task that happen while the cache lock is held: those after a
  \<open>LockAcquire\<close> and before the next \<open>LockRelease\<close>.
\<close>

fun under_lock :: "bool \<Rightarrow> event list \<Rightarrow> event list" where
  "under_lock held [] = []"
| "under_lock held (LockAcquire # steps) = under_lock True steps"
| "under_lock held (LockRelease # steps) = under_lock False steps"
| "under_lock held (step # steps) = (if held then step # under_lock held steps else under_lock held steps)"

text \<open>
  An entry as a task of the run over \<open>media_files\<close> stores it under the key \<open>h\<close>: the key
  again as the original hash, and as file name the key followed by the suffix of one of the
  media files.
\<close>

definition stored_by_run :: "path list \<Rightarrow> digest \<Rightarrow> cache_entry \<Rightarrow> bool" where
  "stored_by_run media_files h entry \<longleftrightarrow>
     original_hash entry = h \<and>
     (\<exists>media_file \<in> set media_files. cached_filename entry = h @ path_suffix media_file)"

text \<open>The file that a cache entry names exists in the cache directory.\<close>

definition artifact_exists :: "path \<Rightarrow> filesystem \<Rightarrow> cache_entry \<Rightarrow> bool" where
  "artifact_exists cdir fs entry \<longleftrightarrow> fs (path_div cdir (cached_filename entry)) \<noteq> None"

text \<open>The steps that a compression backend takes.\<close>

definition backend_event :: "event \<Rightarrow> bool" where
  "backend_event ev =
     (case ev of
        PilOpen p \<Rightarrow> True
      | PilSave p \<Rightarrow> True
      | FfmpegWhich \<Rightarrow> True
      | FfmpegRun cmd \<Rightarrow> True
      | _ \<Rightarrow> False)"

text \<open>
  The ratio that a bound contributes to the scale factor: the rounded quotient of the bound
  by the extent when the extent exceeds the bound, and 1 otherwise.
\<close>

definition bound_ratio :: "int option \<Rightarrow> int \<Rightarrow> rat" where
  "bound_ratio bound extent =
     (case bound of
        None \<Rightarrow> 1
      | Some b \<Rightarrow> if extent > b then fl (of_int b / of_int extent) else 1)"

text \<open>One plus the unit roundoff of a double: rounding a positive number grows it by at most this factor.\<close>

definition ulp_factor :: rat where
  "ulp_factor = 1 + 1 / 2 ^ 53"

text \<open>Taking and releasing the cache lock.\<close>

definition lock_event :: "event \<Rightarrow> bool" where
  "lock_event ev = (case ev of LockAcquire \<Rightarrow> True | LockRelease \<Rightarrow> True | _ \<Rightarrow> False)"

text \<open>The steps that belong to the transcoder, and those that belong to Pillow.\<close>

definition ffmpeg_event :: "event \<Rightarrow> bool" where
  "ffmpeg_event ev = (case ev of FfmpegWhich \<Rightarrow> True | FfmpegRun cmd \<Rightarrow> True | _ \<Rightarrow> False)"

definition pil_event :: "event \<Rightarrow> bool" where
  "pil_event ev = (case ev of PilOpen p \<Rightarrow> True | PilSave p \<Rightarrow> True | _ \<Rightarrow> False)"

text \<open>
  The state in which \<^verbatim>\<open>on_post_build\<close> starts its tasks: the orphaned entries are gone.
\<close>

definition pruned_state :: "path \<Rightarrow> plugin_state \<Rightarrow> plugin_state" where
  "pruned_state cdir st = st\<lparr>cache := fst (clean_orphaned_cache cdir (files st) (cache st))\<rparr>"

section \<open>A small site\<close>

text \<open>
  Concrete inputs for the examples: a site with two images of equal content and one video, a
  cache directory that holds one artifact, a cache with an entry for that artifact and an
  entry whose artifact is gone, and an environment in which the digest of a content is its
  reversal, every image but the empty one decodes, and ffmpeg is not installed.
\<close>

definition demo_files :: filesystem where
  "demo_files =
     (\<lambda>p. None)([''site'', ''a.png''] \<mapsto> ''abc'',
                [''site'', ''b.png''] \<mapsto> ''abc'',
                [''site'', ''v.mp4''] \<mapsto> ''vid'',
                [''cache'', ''cba.png''] \<mapsto> ''z'')"

definition live_entry :: cache_entry where
  "live_entry = \<lparr>cached_filename = ''cba.png'', original_hash = ''cba''\<rparr>"

definition gone_entry :: cache_entry where
  "gone_entry = \<lparr>cached_filename = ''gone.png'', original_hash = ''gone''\<rparr>"

definition demo_cache :: cache where
  "demo_cache = [(''cba'', live_entry), (''gone'', gone_entry)]"

definition demo_env :: "bytes environment" where
  "demo_env =
     \<lparr>sha256_of = rev, writable = (\<lambda>p. True),
      pil_open = (\<lambda>content. if content = [] then None else Some content),
      pil_orient = (\<lambda>img. img), pil_mode = (\<lambda>img. ''RGB''), pil_flatten = Some,
      pil_size = (\<lambda>img. (4000, 2000)), pil_resize = (\<lambda>img new_size. Some img),
      pil_save = (\<lambda>img name kwargs. Saved img),
      ffmpeg_found = False, ffmpeg_run = (\<lambda>cmd input. SpawnFailed)\<rparr>"

text \<open>
  The site with an empty cache and with the cache above; an environment in which
  \<^verbatim>\<open>img.save\<close> raises and leaves a partial file; the settings with both skip flags on.
\<close>

definition demo_state :: plugin_state where
  "demo_state = \<lparr>files = demo_files, cache = []\<rparr>"

definition warm_state :: plugin_state where
  "warm_state = \<lparr>files = demo_files, cache = demo_cache\<rparr>"

definition broken_env :: "bytes environment" where
  "broken_env = demo_env\<lparr>pil_save := (\<lambda>img name kwargs. SaveFailed (Some ''part''))\<rparr>"





text \<open>
  An environment whose images are their sizes: every file decodes to an image of 4000 by
  2000, \<^verbatim>\<open>resize\<close> returns the image of the size it is asked for and rejects a size
  with a side that is not positive, and \<^verbatim>\<open>save\<close> writes the size of the image.  The
  settings with a maximum width of 1000.
\<close>

definition sized_env :: "(int \<times> int) environment" where
  "sized_env =
     \<lparr>sha256_of = rev, writable = (\<lambda>p. True),
      pil_open = (\<lambda>content. if content = [] then None else Some (4000, 2000)),
      pil_orient = (\<lambda>img. img), pil_mode = (\<lambda>img. ''RGB''), pil_flatten = Some,
      pil_size = (\<lambda>img. img),
      pil_resize = (\<lambda>img new_size. if 0 < fst new_size \<and> 0 < snd new_size then Some new_size else None),
      pil_save = (\<lambda>img name kwargs. Saved (str_int (fst img) @ ''x'' @ str_int (snd img))),
      ffmpeg_found = False, ffmpeg_run = (\<lambda>cmd input. SpawnFailed)\<rparr>"

definition narrow_config :: plugin_config where
  "narrow_config = default_config\<lparr>image_max_width := Some 1000\<rparr>"

section \<open>Loading the cache record\<close>

lemma json_opt_int_inject: "json_opt_int a = json_opt_int b \<longleftrightarrow> a = b"
  by (auto simp: json_opt_int_def split: option.splits)

lemma py_eq_json_opt_int: "py_eq (json_opt_int a) (json_opt_int b) \<longleftrightarrow> a = b"
  by (auto simp: json_opt_int_def split: option.splits)

lemma py_eq_snapshots:
  "py_eq (get_current_config a) (get_current_config b)
     \<longleftrightarrow> get_current_config a = get_current_config b"
  by (auto simp: get_current_config_def py_eq_json_opt_int json_opt_int_inject)

lemma snapshot_eq_iff:
  "get_current_config a = get_current_config b \<longleftrightarrow>
     image_quality a = image_quality b \<and> image_max_width a = image_max_width b \<and>
     image_max_height a = image_max_height b \<and> video_crf a = video_crf b \<and>
     video_preset a = video_preset b \<and> video_max_width a = video_max_width b \<and>
     skip_images a = skip_images b \<and> skip_videos a = skip_videos b"
  by (auto simp: get_current_config_def json_opt_int_inject)

text \<open>
  Claim C2.  A record saved under the settings \<open>cfg1\<close> with the entries \<open>c\<close>, loaded
  under the settings \<open>cfg2\<close>: when the two snapshots are equal the loaded value is exactly
  the stored entries, and when they differ it is the empty dict.
\<close>

theorem load_saved_cache:
  "load_cache cfg2 (save_cache cfg1 c) =
     Inr (if get_current_config cfg1 = get_current_config cfg2 then cache_json c else JObj [])"
  by (simp add: load_cache_def save_cache_def cache_data_of_def read_json_def
      load_cache_try_def py_eq_snapshots)
    (simp add: get_current_config_def)

text \<open>
  Claim C5.  A record file that is absent, that cannot be read as JSON, or whose value is not
  a dict with a \<^verbatim>\<open>"config"\<close> key loads as the empty cache, and that empty cache is
  saved under the snapshot of the current settings; no load, of any record file, lets an
  exception out.
\<close>

theorem load_cache_absent_or_malformed:
  assumes "rf = Absent \<or> rf = Unreadable \<or> (\<exists>j. rf = Content j \<and> lacks_config j)"
  shows "load_cache cfg rf = Inr (JObj []) \<and>
         save_cache cfg [] =
           Content (JObj [(''config'', get_current_config cfg), (''files'', JObj [])]) \<and>
         (\<forall>any. \<exists>loaded. load_cache cfg any = Inr loaded)"
proof -
  have malformed: "load_cache cfg (Content j) = Inr (JObj [])" if "lacks_config j" for j
    using that
    by (cases j) (simp_all add: load_cache_def read_json_def load_cache_try_def lacks_config_def)
  have empty: "load_cache cfg rf = Inr (JObj [])"
    using assms malformed by (auto simp: load_cache_def read_json_def)
  have saved: "save_cache cfg [] =
      Content (JObj [(''config'', get_current_config cfg), (''files'', JObj [])])"
    by (simp add: save_cache_def cache_data_of_def cache_json_def)
  have total: "\<exists>loaded. load_cache cfg any = Inr loaded" for any
    by (auto simp: load_cache_def split: sum.splits)
  from empty saved total show ?thesis by blast
qed

theorem load_cache_absent_or_malformed_witness:
  "lacks_config (JObj [(''files'', JObj [])]) \<and>
   load_cache default_config (Content (JObj [(''files'', JObj [])])) = Inr (JObj []) \<and>
   load_cache default_config Unreadable = Inr (JObj []) \<and>
   load_cache default_config Absent = Inr (JObj [])"
proof -
  have old_format: "lacks_config (JObj [(''files'', JObj [])])"
    by (simp add: lacks_config_def)
  show ?thesis
    using old_format
      load_cache_absent_or_malformed [of "Content (JObj [(''files'', JObj [])])" default_config]
      load_cache_absent_or_malformed [of Unreadable default_config]
      load_cache_absent_or_malformed [of Absent default_config]
    by simp
qed

section \<open>The digest of a file\<close>

declare feed_chunks.simps [simp del]
declare digits_of.simps [simp del]

lemma feed_chunks_append: "feed_chunks sha256 rest = sha256 @ rest"
proof (induction sha256 rest rule: feed_chunks.induct)
  case (1 sha256 rest)
  show ?case
  proof (cases "take 8192 rest = []")
    case True
    then have "rest = []" by simp
    then show ?thesis by (simp add: feed_chunks.simps)
  next
    case False
    then have "feed_chunks sha256 rest
        = feed_chunks (sha256_update sha256 (take 8192 rest)) (drop 8192 rest)"
      by (subst feed_chunks.simps) simp
    also have "\<dots> = sha256_update sha256 (take 8192 rest) @ drop 8192 rest"
      using False by (intro "1.IH") simp_all
    finally show ?thesis by (simp add: sha256_update_def)
  qed
qed

text \<open>
  Claim C9.  For a file with the bytes \<open>content\<close>, the digest that
  \<^verbatim>\<open>_compute_file_hash\<close> gets by feeding 8192-byte chunks is the one-shot digest of the
  whole content; so any file with the same bytes, in any file store, has the same digest.
\<close>

theorem compute_file_hash_one_shot:
  assumes "fs file_path = Some content"
  shows "compute_file_hash H fs file_path = Inr (one_shot_digest H content) \<and>
         (\<forall>fs' other. fs' other = Some content \<longrightarrow>
            compute_file_hash H fs' other = compute_file_hash H fs file_path)"
  using assms
  by (simp add: compute_file_hash_def one_shot_digest_def feed_chunks_append sha256_update_def)

theorem compute_file_hash_one_shot_witness:
  "demo_files [''site'', ''a.png''] = Some ''abc'' \<and>
   compute_file_hash rev demo_files [''site'', ''a.png''] = Inr (one_shot_digest rev ''abc'') \<and>
   compute_file_hash rev demo_files [''site'', ''b.png'']
     = compute_file_hash rev demo_files [''site'', ''a.png'']"
proof -
  have a: "demo_files [''site'', ''a.png''] = Some ''abc''" by (simp add: demo_files_def)
  have b: "demo_files [''site'', ''b.png''] = Some ''abc''" by (simp add: demo_files_def)
  show ?thesis
    using a b compute_file_hash_one_shot [of demo_files "[''site'', ''a.png'']" "''abc''" rev]
    by blast
qed

section \<open>Pruning orphaned entries\<close>

lemma delete_as_filter: "AList.delete k c = filter (\<lambda>kv. fst kv \<noteq> k) c"
  by (induction c) (auto simp: AList.delete_eq)

lemma foldl_delete_filter:
  "foldl (\<lambda>c' k. AList.delete k c') c ks = filter (\<lambda>kv. fst kv \<notin> set ks) c"
proof (induction ks arbitrary: c)
  case Nil
  then show ?case by simp
next
  case (Cons k ks)
  have "foldl (\<lambda>c' k. AList.delete k c') c (k # ks)
      = foldl (\<lambda>c' k. AList.delete k c') (AList.delete k c) ks"
    by simp
  also have "\<dots> = filter (\<lambda>kv. fst kv \<notin> set ks) (AList.delete k c)"
    by (rule Cons.IH)
  also have "\<dots> = filter (\<lambda>kv. fst kv \<notin> set ks) (filter (\<lambda>kv. fst kv \<noteq> k) c)"
    by (simp only: delete_as_filter)
  also have "\<dots> = filter (\<lambda>kv. fst kv \<notin> set (k # ks)) c"
    by (induction c) auto
  finally show ?case .
qed

lemma key_unique:
  assumes "distinct (map fst c)" and "(h, e) \<in> set c" and "(h, e') \<in> set c"
  shows "e = e'"
proof -
  from assms(1) have "inj_on fst (set c)" by (simp add: distinct_map)
  from inj_onD[OF this, of "(h, e)" "(h, e')"] assms(2,3) show ?thesis by simp
qed

lemma orphaned_keys_map:
  assumes "distinct (map fst c)"
  shows "orphaned_keys cdir fs c = map fst (filter (\<lambda>kv. \<not> artifact_exists cdir fs (snd kv)) c)"
proof -
  have "map_of c (fst kv) = Some (snd kv)" if "kv \<in> set c" for kv
    using assms that by (cases kv) simp
  then have "filter ((\<lambda>h. case map_of c h of None \<Rightarrow> False
                 | Some entry \<Rightarrow> fs (path_div cdir (cached_filename entry)) = None) \<circ> fst) c
      = filter (\<lambda>kv. \<not> artifact_exists cdir fs (snd kv)) c"
    by (intro filter_cong[OF refl]) (simp add: artifact_exists_def)
  then show ?thesis by (simp add: orphaned_keys_def filter_map)
qed

lemma clean_orphaned_cache_filter:
  assumes "distinct (map fst c)"
  shows "fst (clean_orphaned_cache cdir fs c) = filter (\<lambda>kv. artifact_exists cdir fs (snd kv)) c"
proof -
  have "(fst kv \<notin> set (orphaned_keys cdir fs c)) = artifact_exists cdir fs (snd kv)"
    if kv: "kv \<in> set c" for kv
  proof
    assume "fst kv \<notin> set (orphaned_keys cdir fs c)"
    then show "artifact_exists cdir fs (snd kv)"
      using kv by (auto simp: orphaned_keys_map[OF assms])
  next
    assume ex: "artifact_exists cdir fs (snd kv)"
    show "fst kv \<notin> set (orphaned_keys cdir fs c)"
    proof
      assume "fst kv \<in> set (orphaned_keys cdir fs c)"
      then obtain kv' where kv': "kv' \<in> set c" "fst kv' = fst kv"
          "\<not> artifact_exists cdir fs (snd kv')"
        by (auto simp: orphaned_keys_map[OF assms])
      have "snd kv' = snd kv"
        using key_unique[OF assms, of "fst kv" "snd kv'" "snd kv"] kv kv'
        by (metis prod.collapse)
      with kv' ex show False by simp
    qed
  qed
  then have "filter (\<lambda>kv. fst kv \<notin> set (orphaned_keys cdir fs c)) c
      = filter (\<lambda>kv. artifact_exists cdir fs (snd kv)) c"
    by (intro filter_cong[OF refl])
  then show ?thesis
    by (simp add: clean_orphaned_cache_def Let_def foldl_delete_filter)
qed

lemma map_of_filter_distinct:
  assumes "distinct (map fst c)"
  shows "map_of (filter (\<lambda>kv. P (snd kv)) c) h =
           (case map_of c h of None \<Rightarrow> None | Some e \<Rightarrow> if P e then Some e else None)"
  using assms
proof (induction c)
  case Nil
  then show ?case by simp
next
  case (Cons kv c)
  obtain k v where kv: "kv = (k, v)" by (cases kv)
  from Cons.prems kv have notin: "k \<notin> fst ` set c" by simp
  then have none: "map_of c k = None" by (simp add: map_of_eq_None_iff)
  have none': "map_of (filter (\<lambda>kv. P (snd kv)) c) k = None"
    using notin by (auto simp: map_of_eq_None_iff)
  from Cons show ?case
    by (auto simp: kv none none')
qed

text \<open>
  Claim C6, as the code has it.  On a cache with distinct keys (a dict),
  \<^verbatim>\<open>_clean_orphaned_cache\<close> keeps exactly the entries whose artifact exists, each
  unchanged and in its place, and removes every entry whose artifact is missing, so that the
  digest of a removed entry is a miss at the next lookup.  The number of entries removed is
  not returned: it is printed, in one line, and only when it is positive.
\<close>

theorem clean_orphaned_cache_prunes:
  assumes "distinct (map fst c)"
  shows "fst (clean_orphaned_cache cdir fs c) = filter (\<lambda>kv. artifact_exists cdir fs (snd kv)) c \<and>
         (\<forall>h. map_of (fst (clean_orphaned_cache cdir fs c)) h =
                (case map_of c h of
                   None \<Rightarrow> None
                 | Some entry \<Rightarrow> if artifact_exists cdir fs entry then Some entry else None)) \<and>
         (\<forall>h entry. map_of c h = Some entry \<and> \<not> artifact_exists cdir fs entry \<longrightarrow>
                fst (lookup_cached cdir
                       \<lparr>files = fs, cache = fst (clean_orphaned_cache cdir fs c)\<rparr> h) = None) \<and>
         snd (clean_orphaned_cache cdir fs c) =
           (let removed = length c - length (fst (clean_orphaned_cache cdir fs c))
            in if 0 < removed then [Cleaned removed] else [])"
proof -
  let ?c' = "fst (clean_orphaned_cache cdir fs c)"
  have f: "?c' = filter (\<lambda>kv. artifact_exists cdir fs (snd kv)) c"
    by (rule clean_orphaned_cache_filter[OF assms])
  have m: "map_of ?c' h = (case map_of c h of None \<Rightarrow> None
             | Some entry \<Rightarrow> if artifact_exists cdir fs entry then Some entry else None)" for h
    unfolding f by (rule map_of_filter_distinct[OF assms])
  have l: "fst (lookup_cached cdir \<lparr>files = fs, cache = ?c'\<rparr> h) = None"
    if "map_of c h = Some entry" "\<not> artifact_exists cdir fs entry" for h entry
    using that by (simp add: lookup_cached_def m)
  have len: "length (orphaned_keys cdir fs c) = length c - length ?c'"
  proof -
    have "length c = length (filter (\<lambda>kv. artifact_exists cdir fs (snd kv)) c)
                   + length (filter (\<lambda>kv. \<not> artifact_exists cdir fs (snd kv)) c)"
      by (rule sum_length_filter_compl[symmetric])
    then show ?thesis by (simp add: f orphaned_keys_map[OF assms])
  qed
  have "snd (clean_orphaned_cache cdir fs c) =
      (if 0 < length (orphaned_keys cdir fs c) then [Cleaned (length (orphaned_keys cdir fs c))]
       else [])"
    by (simp add: clean_orphaned_cache_def Let_def)
  then have p: "snd (clean_orphaned_cache cdir fs c) =
      (let removed = length c - length ?c' in if 0 < removed then [Cleaned removed] else [])"
    unfolding len Let_def .
  from f m l p show ?thesis by blast
qed

theorem clean_orphaned_cache_prunes_witness:
  "distinct (map fst demo_cache) \<and>
   fst (clean_orphaned_cache [''cache''] demo_files demo_cache) = [(''cba'', live_entry)] \<and>
   snd (clean_orphaned_cache [''cache''] demo_files demo_cache) = [Cleaned 1]"
proof -
  have d: "distinct (map fst demo_cache)" by (simp add: demo_cache_def)
  have live: "artifact_exists [''cache''] demo_files live_entry"
    by (simp add: artifact_exists_def live_entry_def demo_files_def path_div_def)
  have gone: "\<not> artifact_exists [''cache''] demo_files gone_entry"
    by (simp add: artifact_exists_def gone_entry_def demo_files_def path_div_def)
  have kept: "filter (\<lambda>kv. artifact_exists [''cache''] demo_files (snd kv)) demo_cache
      = [(''cba'', live_entry)]"
    using live gone by (simp add: demo_cache_def)
  show ?thesis
    using d kept clean_orphaned_cache_prunes [of demo_cache "[''cache'']" demo_files]
    by (simp add: demo_cache_def)
qed

text \<open>
  With no orphaned entry nothing is printed: the number of entries removed, zero, comes out
  of \<^verbatim>\<open>_clean_orphaned_cache\<close> nowhere.
\<close>

theorem clean_orphaned_cache_no_count:
  "snd (clean_orphaned_cache [''cache''] demo_files [(''cba'', live_entry)])
     \<noteq> [Cleaned (length [(''cba'', live_entry)]
          - length (fst (clean_orphaned_cache [''cache''] demo_files [(''cba'', live_entry)])))]"
  by (simp add: clean_orphaned_cache_def orphaned_keys_def live_entry_def demo_files_def
      path_div_def)

section \<open>Backends, tasks and runs\<close>

lemma not_in_cache_dir: "butlast p \<noteq> cdir \<Longrightarrow> p \<noteq> path_div cdir n"
  by (auto simp: path_div_def)

lemma path_name_div [simp]: "path_name (path_div cdir n) = n"
  by (simp add: path_name_def path_div_def)

lemma compress_image_frame:
  assumes "compress_image env cfg cdir fs f h = (r, fs', steps)"
      and "p \<noteq> path_div cdir (h @ path_suffix f)"
  shows "fs' p = fs p"
  using assms
  by (auto simp: compress_image_def Let_def
      split: option.splits save_result.splits if_splits)

lemma compress_image_steps:
  assumes "compress_image env cfg cdir fs f h = (r, fs', steps)"
  shows "set steps \<subseteq> {PilOpen f, PilSave (path_div cdir (h @ path_suffix f))}"
  using assms
  by (auto simp: compress_image_def Let_def
      split: option.splits save_result.splits if_splits)

lemma compress_image_result:
  assumes "compress_image env cfg cdir fs f h = (Some cf, fs', steps)"
  shows "cf = path_div cdir (h @ path_suffix f)"
  using assms
  by (auto simp: compress_image_def Let_def
      split: option.splits save_result.splits if_splits)

lemma compress_video_frame:
  assumes "compress_video env cfg cdir fs f h = (r, fs', steps)"
      and "p \<noteq> path_div cdir (h @ path_suffix f)"
  shows "fs' p = fs p"
  using assms
  by (auto simp: compress_video_def Let_def
      split: option.splits proc_result.splits if_splits)

lemma compress_video_steps:
  assumes "compress_video env cfg cdir fs f h = (r, fs', steps)"
  shows "set steps \<subseteq> {FfmpegWhich, FfmpegRun (ffmpeg_cmd cfg f (path_div cdir (h @ path_suffix f)))}"
  using assms
  by (auto simp: compress_video_def Let_def
      split: option.splits proc_result.splits if_splits)

lemma compress_video_result:
  assumes "compress_video env cfg cdir fs f h = (Some cf, fs', steps)"
  shows "cf = path_div cdir (h @ path_suffix f)"
  using assms
  by (auto simp: compress_video_def Let_def
      split: option.splits proc_result.splits if_splits)

lemma compress_media_frame:
  assumes "compress_media env cfg cdir fs f ext h = Some (r, fs', steps)"
      and "p \<noteq> path_div cdir (h @ path_suffix f)"
  shows "fs' p = fs p"
  using assms compress_image_frame compress_video_frame
  by (fastforce simp: compress_media_def split: if_splits)

lemma compress_media_result:
  assumes "compress_media env cfg cdir fs f ext h = Some (Some cf, fs', steps)"
  shows "cf = path_div cdir (h @ path_suffix f)"
  using assms compress_image_result compress_video_result
  by (fastforce simp: compress_media_def split: if_splits)

lemma compress_media_steps:
  assumes "compress_media env cfg cdir fs f ext h = Some (r, fs', steps)"
  shows "\<forall>ev \<in> set steps. backend_event ev"
  using assms compress_image_steps[of env cfg cdir fs f h r fs' steps]
    compress_video_steps[of env cfg cdir fs f h r fs' steps]
  by (auto simp: compress_media_def backend_event_def split: if_splits)

lemma process_backend_fails:
  assumes "backend_fails env cfg cdir st f"
  shows "\<exists>h fs1 looked backend.
           compute_file_hash (sha256_of env) (files st) f = Inr h \<and>
           compress_media env cfg cdir (files st) f (lower (path_suffix f)) h = Some (None, fs1, backend) \<and>
           process_media_file env cfg cdir st f =
             (Inr False, st\<lparr>files := fs1\<rparr>,
              [HashFile f, LockAcquire] @ looked @ [LockRelease] @ backend) \<and>
           set looked \<subseteq> {CacheLookup h} \<union> range PathExists"
  using assms
  by (auto simp: backend_fails_def process_media_file_def Let_def store_compressed_def lookup_cached_def
      split: sum.splits option.splits prod.splits if_splits)

lemma process_backend_fails_frame:
  assumes "backend_fails env cfg cdir st f"
  shows "\<exists>fs1 steps.
           process_media_file env cfg cdir st f = (Inr False, st\<lparr>files := fs1\<rparr>, steps) \<and>
           (\<forall>p. butlast p \<noteq> cdir \<longrightarrow> fs1 p = files st p) \<and>
           (\<forall>src dst. CopyFile src dst \<notin> set steps)"
proof -
  from process_backend_fails[OF assms] obtain h fs1 looked backend where
    h: "compute_file_hash (sha256_of env) (files st) f = Inr h" and
    c: "compress_media env cfg cdir (files st) f (lower (path_suffix f)) h = Some (None, fs1, backend)" and
    p: "process_media_file env cfg cdir st f =
          (Inr False, st\<lparr>files := fs1\<rparr>, [HashFile f, LockAcquire] @ looked @ [LockRelease] @ backend)" and
    l: "set looked \<subseteq> {CacheLookup h} \<union> range PathExists"
    by blast
  have frame: "fs1 p = files st p" if "butlast p \<noteq> cdir" for p
    using compress_media_frame[OF c] not_in_cache_dir[OF that] by blast
  have "\<forall>ev \<in> set backend. backend_event ev" by (rule compress_media_steps[OF c])
  then have nb: "CopyFile src dst \<notin> set backend" for src dst
    by (auto simp: backend_event_def)
  have nl: "CopyFile src dst \<notin> set looked" for src dst
    using l by auto
  show ?thesis
    using p frame nb nl by auto
qed





lemma foldl_count_result:
  "foldl count_result (p, s, e) rs =
     (p + length (filter (\<lambda>r. r = Inr True) rs),
      s + length (filter (\<lambda>r. r = Inr False) rs),
      e + length (filter isl rs))"
proof (induction rs arbitrary: p s e)
  case Nil
  then show ?case by simp
next
  case (Cons r rs)
  show ?case
  proof (cases r)
    case (Inl x)
    then have "count_result (p, s, e) r = (p, s, e + 1)" by (simp add: count_result_def)
    then show ?thesis using Inl by (simp add: Cons.IH)
  next
    case (Inr b)
    show ?thesis
    proof (cases b)
      case True
      with Inr have "count_result (p, s, e) r = (p + 1, s, e)" by (simp add: count_result_def)
      then show ?thesis using Inr True by (simp add: Cons.IH)
    next
      case False
      with Inr have "count_result (p, s, e) r = (p, s + 1, e)" by (simp add: count_result_def)
      then show ?thesis using Inr False by (simp add: Cons.IH)
    qed
  qed
qed

lemma tally_counts:
  "tally rs = (length (filter (\<lambda>r. r = Inr True) rs),
               length (filter (\<lambda>r. r = Inr False) rs),
               length (filter isl rs))"
  using foldl_count_result[of 0 0 0 rs] by (simp add: tally_def)



subsection \<open>Which steps a task takes\<close>

lemma lookup_cached_steps:
  assumes "lookup_cached cdir st h = (r, looked)"
  shows "\<forall>ev \<in> set looked. \<not> backend_event ev"
  using assms
  by (auto simp: lookup_cached_def Let_def backend_event_def split: option.splits if_splits)

lemma store_compressed_steps:
  assumes "store_compressed env st fs f h cf = (r, st', stored)"
  shows "\<forall>ev \<in> set stored. \<not> backend_event ev"
  using assms
  by (auto simp: store_compressed_def Let_def backend_event_def
      split: option.splits if_splits sum.splits)

lemma image_not_video: "ext \<in> set IMAGE_EXTENSIONS \<Longrightarrow> ext \<notin> set VIDEO_EXTENSIONS"
  by (auto simp: VIDEO_EXTENSIONS_def IMAGE_EXTENSIONS_def)

lemma compress_media_no_ffmpeg:
  assumes "compress_media env cfg cdir fs f ext h = Some (r, fs', steps)"
      and "ext \<notin> set VIDEO_EXTENSIONS"
  shows "\<forall>ev \<in> set steps. \<not> ffmpeg_event ev"
  using assms compress_image_steps[of env cfg cdir fs f h r fs' steps]
  by (auto simp: compress_media_def ffmpeg_event_def split: if_splits)

lemma compress_media_no_pil:
  assumes "compress_media env cfg cdir fs f ext h = Some (r, fs', steps)"
      and "ext \<notin> set IMAGE_EXTENSIONS"
  shows "\<forall>ev \<in> set steps. \<not> pil_event ev"
  using assms compress_video_steps[of env cfg cdir fs f h r fs' steps]
  by (auto simp: compress_media_def pil_event_def split: if_splits)

lemma ffmpeg_is_backend: "ffmpeg_event ev \<Longrightarrow> backend_event ev"
  by (auto simp: ffmpeg_event_def backend_event_def split: event.splits)

lemma pil_is_backend: "pil_event ev \<Longrightarrow> backend_event ev"
  by (auto simp: pil_event_def backend_event_def split: event.splits)

text \<open>The steps of a task, split into those of the plugin and those of the backend.\<close>

lemma process_steps:
  assumes "process_media_file env cfg cdir st f = (r, st', steps)"
  shows "(\<forall>ev \<in> set steps. \<not> backend_event ev) \<or>
         (\<exists>h fs1 cf backend own.
            \<not> (lower (path_suffix f) \<in> set IMAGE_EXTENSIONS \<and> skip_images cfg) \<and>
            \<not> (lower (path_suffix f) \<in> set VIDEO_EXTENSIONS \<and> skip_videos cfg) \<and>
            compress_media env cfg cdir (files st) f (lower (path_suffix f)) h = Some (cf, fs1, backend) \<and>
            set steps = set own \<union> set backend \<and> (\<forall>ev \<in> set own. \<not> backend_event ev))"
proof -
  let ?ext = "lower (path_suffix f)"
  consider (skip) "(?ext \<in> set IMAGE_EXTENSIONS \<and> skip_images cfg) \<or> (?ext \<in> set VIDEO_EXTENSIONS \<and> skip_videos cfg)"
    | (run) "\<not> (?ext \<in> set IMAGE_EXTENSIONS \<and> skip_images cfg)" "\<not> (?ext \<in> set VIDEO_EXTENSIONS \<and> skip_videos cfg)"
    by blast
  then show ?thesis
  proof cases
    case skip
    then have "steps = []" using assms by (auto simp: process_media_file_def Let_def split: if_splits)
    then show ?thesis by simp
  next
    case run
    show ?thesis
    proof (cases "compute_file_hash (sha256_of env) (files st) f")
      case (Inl e)
      then have "steps = [HashFile f]"
        using assms run by (auto simp: process_media_file_def Let_def)
      then show ?thesis by (simp add: backend_event_def)
    next
      case (Inr h)
      obtain hit looked where lk: "lookup_cached cdir st h = (hit, looked)"
        by (cases "lookup_cached cdir st h")
      note nl = lookup_cached_steps[OF lk]
      show ?thesis
      proof (cases hit)
        case (Some cached_file)
        then have "steps = [HashFile f, LockAcquire] @ looked @ [CopyFile cached_file f, LockRelease]"
          using assms run Inr lk
          by (auto simp: process_media_file_def Let_def split: sum.splits)
        then show ?thesis using nl by (auto simp: backend_event_def)
      next
        case None
        show ?thesis
        proof (cases "compress_media env cfg cdir (files st) f ?ext h")
          case None': None
          then have "steps = [HashFile f, LockAcquire] @ looked @ [LockRelease]"
            using assms run Inr lk None
            by (auto simp: process_media_file_def Let_def)
          then show ?thesis using nl by (auto simp: backend_event_def)
        next
          case (Some res)
          obtain cf fs1 backend where res: "res = (cf, fs1, backend)" by (cases res)
          obtain r2 st2 stored where sc: "store_compressed env st fs1 f h cf = (r2, st2, stored)"
            by (cases "store_compressed env st fs1 f h cf")
          have steps: "steps = ([HashFile f, LockAcquire] @ looked @ [LockRelease]) @ backend @ stored"
            using assms run Inr lk None Some res sc
            by (auto simp: process_media_file_def Let_def)
          let ?own = "[HashFile f, LockAcquire] @ looked @ [LockRelease] @ stored"
          have "set steps = set ?own \<union> set backend" using steps by auto
          moreover have "\<forall>ev \<in> set ?own. \<not> backend_event ev"
            using nl store_compressed_steps[OF sc] by (auto simp: backend_event_def)
          ultimately show ?thesis using run Some res by blast
        qed
      qed
    qed
  qed
qed

lemma process_no_ffmpeg:
  assumes "skip_videos cfg" and "process_media_file env cfg cdir st f = (r, st', steps)"
  shows "\<forall>ev \<in> set steps. \<not> ffmpeg_event ev"
  using process_steps[OF assms(2)] assms(1) compress_media_no_ffmpeg ffmpeg_is_backend
  by (metis Un_iff)

lemma process_no_pil:
  assumes "skip_images cfg" and "process_media_file env cfg cdir st f = (r, st', steps)"
  shows "\<forall>ev \<in> set steps. \<not> pil_event ev"
  using process_steps[OF assms(2)] assms(1) compress_media_no_pil pil_is_backend
  by (metis Un_iff)

lemma skipped_video:
  assumes "skip_videos cfg" and "is_video f"
  shows "process_media_file env cfg cdir st f = (Inr False, st, [])"
  using assms by (simp add: process_media_file_def is_video_def Let_def)

lemma skipped_image:
  assumes "skip_images cfg" and "is_image f"
  shows "process_media_file env cfg cdir st f = (Inr False, st, [])"
  using assms by (simp add: process_media_file_def is_image_def Let_def)

lemma run_tasks_events:
  assumes "\<And>st f r st' steps. process_media_file env cfg cdir st f = (r, st', steps)
             \<Longrightarrow> \<forall>ev \<in> set steps. \<not> P ev"
  shows "\<forall>ev \<in> set (snd (snd (run_tasks env cfg cdir st xs))). \<not> P ev"
proof (induction xs arbitrary: st)
  case Nil
  then show ?case by simp
next
  case (Cons x xs)
  obtain r st1 t1 where p: "process_media_file env cfg cdir st x = (r, st1, t1)"
    by (cases "process_media_file env cfg cdir st x")
  obtain rs st2 t2 where q: "run_tasks env cfg cdir st1 xs = (rs, st2, t2)"
    by (cases "run_tasks env cfg cdir st1 xs")
  from Cons.IH[of st1] q have "\<forall>ev \<in> set t2. \<not> P ev" by simp
  moreover from assms[OF p] have "\<forall>ev \<in> set t1. \<not> P ev" .
  ultimately show ?case by (auto simp: p q)
qed

lemma run_tasks_skipped_count:
  assumes "\<And>st f. K f \<Longrightarrow> fst (process_media_file env cfg cdir st f) = Inr False"
  shows "length (filter K xs)
           \<le> length (filter (\<lambda>r. r = Inr False) (fst (run_tasks env cfg cdir st xs)))"
proof (induction xs arbitrary: st)
  case Nil
  then show ?case by simp
next
  case (Cons x xs)
  obtain r st1 t1 where p: "process_media_file env cfg cdir st x = (r, st1, t1)"
    by (cases "process_media_file env cfg cdir st x")
  obtain rs st2 t2 where q: "run_tasks env cfg cdir st1 xs = (rs, st2, t2)"
    by (cases "run_tasks env cfg cdir st1 xs")
  from Cons.IH[of st1] q
  have ih: "length (filter K xs) \<le> length (filter (\<lambda>r. r = Inr False) rs)" by simp
  have "K x \<Longrightarrow> r = Inr False" using assms[of x st] p by simp
  with ih show ?case by (auto simp: p q)
qed

subsection \<open>What a run stores in the cache\<close>

lemma process_cache_change:
  assumes "process_media_file env cfg cdir st f = (r, st', steps)"
  shows "cache st' = cache st \<or>
         (\<exists>h. compute_file_hash (sha256_of env) (files st) f = Inr h \<and>
              cache st' = AList.update h \<lparr>cached_filename = h @ path_suffix f, original_hash = h\<rparr> (cache st))"
proof -
  let ?ext = "lower (path_suffix f)"
  show ?thesis
  proof (cases "compute_file_hash (sha256_of env) (files st) f")
    case (Inl e)
    then show ?thesis using assms
      by (auto simp: process_media_file_def Let_def split: if_splits)
  next
    case (Inr h)
    obtain hit looked where lk: "lookup_cached cdir st h = (hit, looked)"
      by (cases "lookup_cached cdir st h")
    show ?thesis
    proof (cases hit)
      case (Some cached_file)
      then show ?thesis using assms Inr lk
        by (auto simp: process_media_file_def Let_def split: if_splits sum.splits)
    next
      case None
      show ?thesis
      proof (cases "compress_media env cfg cdir (files st) f ?ext h")
        case None': None
        then show ?thesis using assms Inr lk None
          by (auto simp: process_media_file_def Let_def split: if_splits)
      next
        case (Some res)
        obtain cf fs1 backend where res: "res = (cf, fs1, backend)" by (cases res)
        show ?thesis
        proof (cases cf)
          case None'': None
          then show ?thesis using assms Inr lk None Some res
            by (auto simp: process_media_file_def Let_def store_compressed_def split: if_splits)
        next
          case Some': (Some compressed)
          have "compressed = path_div cdir (h @ path_suffix f)"
            using compress_media_result Some res Some' by blast
          then show ?thesis using assms Inr lk None Some res Some'
            by (auto simp: process_media_file_def Let_def store_compressed_def
                split: if_splits sum.splits)
        qed
      qed
    qed
  qed
qed

lemma run_tasks_entries:
  assumes "run_tasks env cfg cdir st xs = (rs, st', steps)"
      and "map_of (cache st') h = Some entry"
  shows "map_of (cache st) h = Some entry \<or> stored_by_run xs h entry"
  using assms
proof (induction xs arbitrary: st rs st' steps)
  case Nil
  then show ?case by simp
next
  case (Cons x xs)
  obtain r st1 t1 where p: "process_media_file env cfg cdir st x = (r, st1, t1)"
    by (cases "process_media_file env cfg cdir st x")
  obtain rs2 st2 t2 where q: "run_tasks env cfg cdir st1 xs = (rs2, st2, t2)"
    by (cases "run_tasks env cfg cdir st1 xs")
  from Cons.prems(1) p q have st': "st' = st2" by simp
  from Cons.IH[OF q] Cons.prems(2) st'
  have "map_of (cache st1) h = Some entry \<or> stored_by_run xs h entry" by simp
  then show ?case
  proof
    assume "stored_by_run xs h entry"
    then show ?thesis by (auto simp: stored_by_run_def)
  next
    assume m: "map_of (cache st1) h = Some entry"
    from process_cache_change[OF p] show ?thesis
    proof
      assume "cache st1 = cache st"
      with m show ?thesis by simp
    next
      assume "\<exists>k. compute_file_hash (sha256_of env) (files st) x = Inr k \<and>
              cache st1 = AList.update k \<lparr>cached_filename = k @ path_suffix x, original_hash = k\<rparr> (cache st)"
      then obtain k where
        k: "cache st1 = AList.update k \<lparr>cached_filename = k @ path_suffix x, original_hash = k\<rparr> (cache st)"
        by blast
      show ?thesis
      proof (cases "h = k")
        case True
        with m k have "entry = \<lparr>cached_filename = k @ path_suffix x, original_hash = k\<rparr>"
          by (simp add: update_conv')
        with True show ?thesis by (simp add: stored_by_run_def)
      next
        case False
        with m k show ?thesis by (simp add: update_conv')
      qed
    qed
  qed
qed

lemma pruning_only_deletes:
  assumes "map_of (fst (clean_orphaned_cache cdir fs c)) h = Some entry"
  shows "map_of c h = Some entry"
proof -
  have "map_of (filter (\<lambda>kv. fst kv \<notin> K) c) h = (if h \<in> K then None else map_of c h)" for K
    by (induction c) auto
  then show ?thesis
    using assms by (simp add: clean_orphaned_cache_def Let_def foldl_delete_filter split: if_splits)
qed

subsection \<open>The tasks of the small site\<close>

lemma compute_file_hash_eq:
  "compute_file_hash H fs p = (case fs p of None \<Rightarrow> Inl FileNotFoundError | Some c \<Rightarrow> Inr (H c))"
  by (simp add: compute_file_hash_def feed_chunks_append sha256_hexdigest_def split: option.splits)


lemma ext_png: "lower (path_suffix [''site'', ''a.png'']) = ''.png''"
  by (simp add: path_suffix_def path_name_def rfind_dot_def lower_def lower_char_def)

lemma suffix_png: "path_suffix [''site'', ''a.png''] = ''.png''"
  by (simp add: path_suffix_def path_name_def rfind_dot_def)



lemma demo_hit_task:
  "process_media_file demo_env default_config [''cache''] warm_state [''site'', ''a.png''] =
     (Inr False, warm_state\<lparr>files := demo_files([''site'', ''a.png''] \<mapsto> ''z'')\<rparr>,
      [HashFile [''site'', ''a.png''], LockAcquire, CacheLookup ''cba'',
       PathExists [''cache'', ''cba.png''],
       CopyFile [''cache'', ''cba.png''] [''site'', ''a.png''], LockRelease])"
  by (simp add: process_media_file_def ext_png Let_def IMAGE_EXTENSIONS_def VIDEO_EXTENSIONS_def
      default_config_def compute_file_hash_eq demo_env_def warm_state_def demo_files_def
      demo_cache_def live_entry_def lookup_cached_def path_div_def copy2_def)

lemma demo_image_task:
  "process_media_file demo_env default_config [''cache''] demo_state [''site'', ''a.png''] =
     (Inr True,
      \<lparr>files = demo_files([''cache'', ''cba.png''] \<mapsto> ''abc'', [''site'', ''a.png''] \<mapsto> ''abc''),
       cache = [(''cba'', live_entry)]\<rparr>,
      [HashFile [''site'', ''a.png''], LockAcquire, CacheLookup ''cba'', LockRelease,
       PilOpen [''site'', ''a.png''], PilSave [''cache'', ''cba.png''],
       PathExists [''cache'', ''cba.png''], LockAcquire, CacheInsert ''cba'', LockRelease,
       CopyFile [''cache'', ''cba.png''] [''site'', ''a.png'']])"
  by (simp add: process_media_file_def ext_png suffix_png Let_def IMAGE_EXTENSIONS_def
      VIDEO_EXTENSIONS_def default_config_def compute_file_hash_eq demo_env_def demo_state_def
      demo_files_def live_entry_def lookup_cached_def path_div_def path_name_def copy2_def
      compress_media_def compress_image_def prepare_image_def load_image_def resize_image_def resize_target_def stats_ok_def
      store_compressed_def save_kwargs_def lower_def lower_char_def)

section \<open>A failed backend\<close>

lemma broken_image_fails:
  "backend_fails broken_env default_config [''cache''] demo_state [''site'', ''a.png'']"
  by (simp add: backend_fails_def ext_png suffix_png Let_def IMAGE_EXTENSIONS_def
      VIDEO_EXTENSIONS_def default_config_def compute_file_hash_eq broken_env_def demo_env_def
      demo_state_def demo_files_def lookup_cached_def compress_media_def compress_image_def
      prepare_image_def load_image_def resize_image_def resize_target_def save_kwargs_def lower_def lower_char_def)

lemma broken_image_task:
  "process_media_file broken_env default_config [''cache''] demo_state [''site'', ''a.png''] =
     (Inr False, demo_state\<lparr>files := demo_files([''cache'', ''cba.png''] \<mapsto> ''part'')\<rparr>,
      [HashFile [''site'', ''a.png''], LockAcquire, CacheLookup ''cba'', LockRelease,
       PilOpen [''site'', ''a.png''], PilSave [''cache'', ''cba.png'']])"
  by (simp add: process_media_file_def ext_png suffix_png Let_def IMAGE_EXTENSIONS_def
      VIDEO_EXTENSIONS_def default_config_def compute_file_hash_eq broken_env_def demo_env_def
      demo_state_def demo_files_def lookup_cached_def path_div_def
      compress_media_def compress_image_def prepare_image_def load_image_def resize_image_def resize_target_def
      store_compressed_def save_kwargs_def lower_def lower_char_def)

text \<open>
  Claim C4.  When the task of a media file gets as far as a compression backend and the
  backend returns \<^verbatim>\<open>None\<close>, the task copies nothing, leaves the cache as it was and
  changes no file outside the cache directory; so the original, unless it lies in the cache
  directory itself, has the bytes it had.
\<close>

theorem failed_backend_leaves_original:
  assumes "backend_fails env cfg cdir st media_file"
      and "butlast media_file \<noteq> cdir"
      and "process_media_file env cfg cdir st media_file = (r, st', steps)"
  shows "files st' media_file = files st media_file \<and>
         (\<forall>p. butlast p \<noteq> cdir \<longrightarrow> files st' p = files st p) \<and>
         (\<forall>src dst. CopyFile src dst \<notin> set steps) \<and>
         cache st' = cache st"
  using process_backend_fails_frame[OF assms(1)] assms(2,3) by auto

theorem failed_backend_leaves_original_witness:
  "backend_fails broken_env default_config [''cache''] demo_state [''site'', ''a.png''] \<and>
   butlast [''site'', ''a.png''] \<noteq> [''cache''] \<and>
   files (fst (snd (process_media_file broken_env default_config [''cache''] demo_state
                      [''site'', ''a.png'']))) [''site'', ''a.png''] = Some ''abc'' \<and>
   files (fst (snd (process_media_file broken_env default_config [''cache''] demo_state
                      [''site'', ''a.png'']))) [''cache'', ''cba.png''] = Some ''part''"
proof -
  let ?task = "process_media_file broken_env default_config [''cache''] demo_state [''site'', ''a.png'']"
  have outside: "butlast [''site'', ''a.png''] \<noteq> [''cache'']" by simp
  have task: "?task = (fst ?task, fst (snd ?task), snd (snd ?task))" by simp
  from failed_backend_leaves_original [OF broken_image_fails outside task]
  have "files (fst (snd ?task)) [''site'', ''a.png''] = files demo_state [''site'', ''a.png'']"
    by blast
  then have kept: "files (fst (snd ?task)) [''site'', ''a.png''] = Some ''abc''"
    by (simp add: demo_state_def demo_files_def)
  have part: "files (fst (snd ?task)) [''cache'', ''cba.png''] = Some ''part''"
    by (simp add: broken_image_task)
  from broken_image_fails outside kept part show ?thesis by blast
qed

section \<open>The run summary\<close>

















section \<open>The skip flags\<close>

text \<open>
  What the skip flags do for the files that \<^verbatim>\<open>_process_media_file\<close> takes for a video
  or an image, those whose lower-cased suffix is a video or an image extension.  In a run
  with skip-videos on, the task of every such video returns false at once, whatever the
  state: it takes no step, so it computes no hash, consults no cache and changes nothing;
  the summary counts at least as many skipped files as there are such videos; and no step of
  the run looks for ffmpeg or runs it.  With skip-images on the same holds of the images
  and of the steps of Pillow.
\<close>

lemma skip_flags_by_suffix:
  assumes "on_post_build env cfg cdir st rf media_files = (summary, st', rf', steps)"
  shows "(skip_videos cfg \<longrightarrow>
            (\<forall>st0 f. is_video f \<longrightarrow> process_media_file env cfg cdir st0 f = (Inr False, st0, [])) \<and>
            (\<forall>processed skipped errors. summary = Inr (Some (processed, skipped, errors)) \<longrightarrow>
               length (filter is_video media_files) \<le> skipped) \<and>
            (\<forall>ev \<in> set steps. \<not> ffmpeg_event ev)) \<and>
         (skip_images cfg \<longrightarrow>
            (\<forall>st0 f. is_image f \<longrightarrow> process_media_file env cfg cdir st0 f = (Inr False, st0, [])) \<and>
            (\<forall>processed skipped errors. summary = Inr (Some (processed, skipped, errors)) \<longrightarrow>
               length (filter is_image media_files) \<le> skipped) \<and>
            (\<forall>ev \<in> set steps. \<not> pil_event ev))"
proof -
  let ?st0 = "pruned_state cdir st"
  let ?run = "run_tasks env cfg cdir ?st0 media_files"
  have sum: "summary = (if media_files = [] then Inr None
                        else if max_workers cfg \<le> 0 then Inl ValueError
                        else Inr (Some (tally (fst ?run))))"
    and steps: "steps = (if media_files = [] \<or> max_workers cfg \<le> 0 then [] else snd (snd ?run))"
    using assms by (auto simp: on_post_build_def pruned_state_def split: prod.splits if_splits)
  have skipped: "summary = Inr (Some (processed, skipped, errors)) \<Longrightarrow>
      skipped = length (filter (\<lambda>r. r = Inr False) (fst ?run))" for processed skipped errors
    using sum by (auto simp: tally_counts split: if_splits)
  have v: "length (filter is_video media_files) \<le> skipped"
    if sv: "skip_videos cfg" and s: "summary = Inr (Some (processed, skipped, errors))"
    for processed skipped errors
  proof -
    have "length (filter is_video media_files)
            \<le> length (filter (\<lambda>r. r = Inr False) (fst ?run))"
      by (rule run_tasks_skipped_count) (simp add: skipped_video[OF sv])
    then show ?thesis using skipped[OF s] by simp
  qed
  have v': "\<forall>ev \<in> set steps. \<not> ffmpeg_event ev" if sv: "skip_videos cfg"
  proof -
    have "\<forall>ev \<in> set (snd (snd ?run)). \<not> ffmpeg_event ev"
      by (rule run_tasks_events) (rule process_no_ffmpeg[OF sv])
    then show ?thesis using steps by (auto split: if_splits)
  qed
  have i: "length (filter is_image media_files) \<le> skipped"
    if si: "skip_images cfg" and s: "summary = Inr (Some (processed, skipped, errors))"
    for processed skipped errors
  proof -
    have "length (filter is_image media_files)
            \<le> length (filter (\<lambda>r. r = Inr False) (fst ?run))"
      by (rule run_tasks_skipped_count) (simp add: skipped_image[OF si])
    then show ?thesis using skipped[OF s] by simp
  qed
  have i': "\<forall>ev \<in> set steps. \<not> pil_event ev" if si: "skip_images cfg"
  proof -
    have "\<forall>ev \<in> set (snd (snd ?run)). \<not> pil_event ev"
      by (rule run_tasks_events) (rule process_no_pil[OF si])
    then show ?thesis using steps by (auto split: if_splits)
  qed
  show ?thesis
    using v v' i i' skipped_video skipped_image by blast
qed




section \<open>The entries of the cache\<close>

text \<open>
  Claim C10.  A task either leaves the cache as it is or stores, under the digest \<open>k\<close> of
  its file, the entry whose original hash is \<open>k\<close> and whose file name is \<open>k\<close> followed
  by the suffix of the file, replacing any entry that key had; pruning only deletes
  entries.  So every entry of the cache at the end of a run is an entry the cache had at
  the start, unchanged, or was stored by a task of the run and has that form.
\<close>

theorem cache_entries_of_a_run:
  assumes "on_post_build env cfg cdir st rf media_files = (summary, st', rf', steps)"
      and "map_of (cache st') h = Some entry"
  shows "(map_of (cache st) h = Some entry \<or> stored_by_run media_files h entry) \<and>
         (\<forall>st1 f r st2 steps1. process_media_file env cfg cdir st1 f = (r, st2, steps1) \<longrightarrow>
            cache st2 = cache st1 \<or>
            (\<exists>k. compute_file_hash (sha256_of env) (files st1) f = Inr k \<and>
                 cache st2 = AList.update k
                   \<lparr>cached_filename = k @ path_suffix f, original_hash = k\<rparr> (cache st1))) \<and>
         (\<forall>fs c k e. map_of (fst (clean_orphaned_cache cdir fs c)) k = Some e \<longrightarrow> map_of c k = Some e)"
proof -
  have main: "map_of (cache st) h = Some entry \<or> stored_by_run media_files h entry"
  proof (cases "media_files = []")
    case True
    then show ?thesis using assms by (simp add: on_post_build_def)
  next
    case False
    obtain pruned printed where cl: "clean_orphaned_cache cdir (files st) (cache st) = (pruned, printed)"
      by (cases "clean_orphaned_cache cdir (files st) (cache st)")
    obtain rs st2 t2 where q: "run_tasks env cfg cdir (st\<lparr>cache := pruned\<rparr>) media_files = (rs, st2, t2)"
      by (cases "run_tasks env cfg cdir (st\<lparr>cache := pruned\<rparr>) media_files")
    from assms(1) False cl q have "st' = (if max_workers cfg \<le> 0 then st\<lparr>cache := pruned\<rparr> else st2)"
      by (simp add: on_post_build_def split: if_splits)
    with run_tasks_entries[OF q] assms(2)
    have "map_of pruned h = Some entry \<or> stored_by_run media_files h entry"
      by (simp split: if_splits)
    moreover have "map_of pruned h = Some entry \<Longrightarrow> map_of (cache st) h = Some entry"
      using pruning_only_deletes[of cdir "files st" "cache st" h entry] cl by simp
    ultimately show ?thesis by blast
  qed
  show ?thesis
    using main process_cache_change pruning_only_deletes by blast
qed

theorem cache_entries_of_a_run_witness:
  "map_of (cache (fst (snd (on_post_build demo_env default_config [''cache''] demo_state Absent
                              [[''site'', ''a.png'']])))) ''cba'' = Some live_entry \<and>
   map_of (cache demo_state) ''cba'' = None \<and>
   stored_by_run [[''site'', ''a.png'']] ''cba'' live_entry"
proof -
  let ?run = "on_post_build demo_env default_config [''cache''] demo_state Absent [[''site'', ''a.png'']]"
  have pruned: "clean_orphaned_cache [''cache''] (files demo_state) (cache demo_state) = ([], [])"
    by (simp add: clean_orphaned_cache_def orphaned_keys_def demo_state_def)
  have same: "demo_state\<lparr>cache := []\<rparr> = demo_state"
    by (simp add: demo_state_def)
  have workers: "\<not> max_workers default_config \<le> 0"
    by (simp add: default_config_def)
  have "cache (fst (snd ?run)) = [(''cba'', live_entry)]"
    by (simp add: on_post_build_def pruned same demo_image_task workers)
  then have stored: "map_of (cache (fst (snd ?run))) ''cba'' = Some live_entry"
    by simp
  have fresh: "map_of (cache demo_state) ''cba'' = None"
    by (simp add: demo_state_def)
  have run: "?run = (fst ?run, fst (snd ?run), fst (snd (snd ?run)), snd (snd (snd ?run)))"
    by simp
  have "map_of (cache demo_state) ''cba'' = Some live_entry \<or>
        stored_by_run [[''site'', ''a.png'']] ''cba'' live_entry"
    using cache_entries_of_a_run [OF run stored] by (rule conjunct1)
  with fresh have "stored_by_run [[''site'', ''a.png'']] ''cba'' live_entry"
    by simp
  with stored fresh show ?thesis by (intro conjI)
qed

section \<open>The scope of the cache lock\<close>

lemma under_lock_Cons:
  "\<not> lock_event ev \<Longrightarrow>
     under_lock held (ev # steps) = (if held then ev # under_lock held steps else under_lock held steps)"
  by (cases ev) (simp_all add: lock_event_def)

lemma under_lock_append:
  assumes "\<forall>ev \<in> set xs. \<not> lock_event ev"
  shows "under_lock held (xs @ ys) = (if held then xs else []) @ under_lock held ys"
  using assms by (induction xs) (auto simp: under_lock_Cons)

lemma backend_not_lock: "backend_event ev \<Longrightarrow> \<not> lock_event ev"
  by (cases ev) (simp_all add: backend_event_def lock_event_def)

lemma lookup_cached_no_lock:
  assumes "lookup_cached cdir st h = (r, looked)"
  shows "\<forall>ev \<in> set looked. \<not> lock_event ev"
  using assms
  by (auto simp: lookup_cached_def Let_def lock_event_def split: option.splits if_splits)

lemma store_compressed_under_lock:
  assumes "store_compressed env st fs f h cf = (r, st', stored)"
  shows "under_lock False stored = [] \<or> under_lock False stored = [CacheInsert h]"
  using assms
  by (auto simp: store_compressed_def Let_def split: option.splits if_splits sum.splits)

text \<open>
  What does hold of every task: no file is hashed and no backend step is taken while the
  lock is held.
\<close>

lemma lock_released_for_hash_and_backend:
  assumes "process_media_file env cfg cdir st f = (r, st', steps)"
  shows "\<forall>ev \<in> set (under_lock False steps). \<not> backend_event ev \<and> (\<forall>p. ev \<noteq> HashFile p)"
proof -
  let ?ext = "lower (path_suffix f)"
  consider (skip) "(?ext \<in> set IMAGE_EXTENSIONS \<and> skip_images cfg) \<or> (?ext \<in> set VIDEO_EXTENSIONS \<and> skip_videos cfg)"
    | (run) "\<not> (?ext \<in> set IMAGE_EXTENSIONS \<and> skip_images cfg)" "\<not> (?ext \<in> set VIDEO_EXTENSIONS \<and> skip_videos cfg)"
    by blast
  then show ?thesis
  proof cases
    case skip
    then have "steps = []" using assms by (auto simp: process_media_file_def Let_def split: if_splits)
    then show ?thesis by simp
  next
    case run
    show ?thesis
    proof (cases "compute_file_hash (sha256_of env) (files st) f")
      case (Inl e)
      then have "steps = [HashFile f]"
        using assms run by (auto simp: process_media_file_def Let_def)
      then show ?thesis by simp
    next
      case (Inr h)
      obtain hit looked where lk: "lookup_cached cdir st h = (hit, looked)"
        by (cases "lookup_cached cdir st h")
      note nl = lookup_cached_no_lock[OF lk]
      note nb = lookup_cached_steps[OF lk]
      have nh: "\<forall>ev \<in> set looked. \<forall>p. ev \<noteq> HashFile p"
        using lk by (auto simp: lookup_cached_def Let_def split: option.splits if_splits)
      show ?thesis
      proof (cases hit)
        case (Some cached_file)
        then have "steps = [HashFile f, LockAcquire] @ looked @ [CopyFile cached_file f, LockRelease]"
          using assms run Inr lk
          by (auto simp: process_media_file_def Let_def split: sum.splits)
        then have "under_lock False steps = looked @ [CopyFile cached_file f]"
          using nl by (simp add: under_lock_append)
        then show ?thesis using nb nh by (auto simp: backend_event_def)
      next
        case None
        show ?thesis
        proof (cases "compress_media env cfg cdir (files st) f ?ext h")
          case None': None
          then have "steps = [HashFile f, LockAcquire] @ looked @ [LockRelease]"
            using assms run Inr lk None
            by (auto simp: process_media_file_def Let_def)
          then have "under_lock False steps = looked"
            using nl by (simp add: under_lock_append)
          then show ?thesis using nb nh by auto
        next
          case (Some res)
          obtain cf fs1 backend where res: "res = (cf, fs1, backend)" by (cases res)
          obtain r2 st2 stored where sc: "store_compressed env st fs1 f h cf = (r2, st2, stored)"
            by (cases "store_compressed env st fs1 f h cf")
          have steps: "steps = [HashFile f, LockAcquire] @ looked @ [LockRelease] @ backend @ stored"
            using assms run Inr lk None Some res sc
            by (auto simp: process_media_file_def Let_def)
          have be: "\<forall>ev \<in> set backend. \<not> lock_event ev"
            using compress_media_steps Some res backend_not_lock by blast
          have "under_lock False steps = looked @ under_lock False stored"
            using nl be by (simp add: steps under_lock_append)
          then show ?thesis
            using nb nh store_compressed_under_lock[OF sc] by (auto simp: backend_event_def)
        qed
      qed
    qed
  qed
qed

text \<open>
  Claim C3 fails on a cache hit.  The task of \<^verbatim>\<open>site/a.png\<close>, whose digest has an entry
  with an existing artifact, tests that the artifact exists and copies it over the media
  file while it holds the cache lock.
\<close>

theorem cache_hit_copies_under_the_lock:
  "under_lock False
     (snd (snd (process_media_file demo_env default_config [''cache''] warm_state
                  [''site'', ''a.png''])))
   = [CacheLookup ''cba'', PathExists [''cache'', ''cba.png''],
      CopyFile [''cache'', ''cba.png''] [''site'', ''a.png'']]"
  by (simp add: demo_hit_task)

section \<open>The resize computation\<close>

lemma round_half_even_err: "\<bar>of_int (round_half_even y) - y\<bar> \<le> 1 / 2"
proof -
  have "of_int \<lfloor>y\<rfloor> \<le> y" "y < of_int \<lfloor>y\<rfloor> + 1" by linarith+
  then show ?thesis
    unfolding round_half_even_def Let_def by (auto simp: abs_le_iff)
qed

lemma floor_log2_le:
  assumes "0 < x"
  shows "2 powi (floor_log2 x) \<le> x"
proof -
  obtain a b where q: "quotient_of x = (a, b)" by (cases "quotient_of x")
  then have b: "0 < b" using quotient_of_denom_pos by blast
  from q have x: "x = of_int a / of_int b" by (rule quotient_of_div)
  with assms b have a: "0 < a" by (simp add: zero_less_divide_iff)
  define ba where "ba = floorlog 2 (nat a)"
  define bb where "bb = floorlog 2 (nat b)"
  have ba1: "1 \<le> ba" using a by (simp add: ba_def floorlog_def)
  have "2 ^ (ba - 1) \<le> nat a" using floorlog_bounds[of "nat a" 2] a by (simp add: ba_def)
  then have la: "(2::rat) ^ (ba - 1) \<le> of_int a"
    using a by (metis of_nat_le_iff of_nat_numeral of_nat_power int_nat_eq of_int_of_nat_eq less_imp_le of_int_le_iff)
  have "nat b < 2 ^ bb" using floorlog_bounds[of "nat b" 2] b by (simp add: bb_def)
  then have ub: "of_int b \<le> (2::rat) ^ bb"
    using b by simp
  have low: "(2::rat) powi (int ba - int bb - 1) \<le> x"
  proof -
    have "(2::rat) powi (int ba - int bb - 1) = 2 ^ (ba - 1) / 2 ^ bb"
    proof -
      have eq: "int ba - int bb - 1 = int (ba - 1) - int bb" using ba1 by simp
      have "(2::rat) powi (int ba - int bb - 1) = 2 powi (int (ba - 1) - int bb)"
        by (simp only: eq)
      also have "\<dots> = 2 powi int (ba - 1) / 2 powi int bb"
        by (rule power_int_diff) simp
      also have "\<dots> = 2 ^ (ba - 1) / 2 ^ bb"
        by (simp only: power_int_of_nat)
      finally show ?thesis .
    qed
    also have "\<dots> \<le> of_int a / 2 ^ bb" using la by (simp add: divide_right_mono)
    also have "\<dots> \<le> of_int a / of_int b" using ub a b by (simp add: frac_le)
    finally show ?thesis by (simp add: x)
  qed
  show ?thesis
    using low q by (simp add: floor_log2_def Let_def ba_def bb_def)
qed

lemma fl_rel_err:
  assumes "0 < x"
  shows "\<bar>fl x - x\<bar> \<le> x / 2 ^ 53"
proof -
  define e where "e = floor_log2 x - 52"
  define m where "m = round_half_even (x / 2 powi e)"
  have p: "(0::rat) < 2 powi e" by simp
  have flx: "fl x = of_int m * 2 powi e"
    using assms by (simp add: fl_def e_def m_def Let_def)
  have "\<bar>of_int m - x / 2 powi e\<bar> \<le> 1 / 2" unfolding m_def by (rule round_half_even_err)
  then have "\<bar>of_int m - x / 2 powi e\<bar> * 2 powi e \<le> 1 / 2 * 2 powi e"
    using p by (simp add: mult_right_mono)
  moreover have "\<bar>of_int m - x / 2 powi e\<bar> * 2 powi e = \<bar>of_int m * 2 powi e - x\<bar>"
    using p by (simp add: diff_divide_eq_iff)
  ultimately have err: "\<bar>fl x - x\<bar> \<le> 2 powi e / 2" by (simp add: flx)
  have "2 powi e / 2 = (2::rat) powi (floor_log2 x) / 2 ^ 53"
  proof -
    have "(2::rat) powi (floor_log2 x - 52) = 2 powi (floor_log2 x) / 2 powi (int 52)"
      by (subst power_int_diff) simp_all
    then show ?thesis by (simp add: e_def)
  qed
  also have "\<dots> \<le> x / 2 ^ 53" using floor_log2_le[OF assms] by (simp add: divide_right_mono)
  finally show ?thesis using err by linarith
qed

lemma round_half_even_nonneg: "0 \<le> y \<Longrightarrow> 0 \<le> round_half_even y"
  unfolding round_half_even_def Let_def by auto

lemma fl_nonneg:
  assumes "0 \<le> x"
  shows "0 \<le> fl x"
proof (cases "x = 0")
  case True
  then show ?thesis by (simp add: fl_def)
next
  case False
  with assms have pos: "0 < x" by simp
  have "0 \<le> round_half_even (x / 2 powi (floor_log2 x - 52))"
    using pos by (intro round_half_even_nonneg) simp
  then show ?thesis
    using pos by (simp add: fl_def Let_def)
qed

lemma fl_upper:
  assumes "0 \<le> x"
  shows "fl x \<le> x * ulp_factor"
proof (cases "x = 0")
  case True
  then show ?thesis by (simp add: fl_def)
next
  case False
  with assms have pos: "0 < x" by simp
  from fl_rel_err[OF pos] have "fl x - x \<le> x / 2 ^ 53" by linarith
  then show ?thesis by (simp add: ulp_factor_def algebra_simps)
qed

lemma round_half_even_of_int: "round_half_even (of_int z) = z"
  by (simp add: round_half_even_def)

lemma fl_int:
  assumes "0 < n" and "n < 2 ^ 53"
  shows "fl (of_int n) = of_int n"
proof -
  let ?x = "of_int n :: rat"
  have pos: "0 < ?x" using assms by simp
  define k where "k = floor_log2 ?x"
  have "2 powi k \<le> ?x" unfolding k_def by (rule floor_log2_le[OF pos])
  also have "?x < 2 ^ 53" using assms(2) by (metis of_int_less_iff of_int_numeral of_int_power)
  finally have "(2::rat) powi k < 2 powi 53" by simp
  then have k: "k < 53" by (rule power_int_le_imp_less_exp[rotated]) simp_all
  define j where "j = nat (52 - k)"
  have e: "k - 52 = - int j" using k by (simp add: j_def)
  have p: "(2::rat) powi (k - 52) = 1 / 2 ^ j"
    unfolding e by (simp add: power_int_minus field_simps)
  have "?x / 2 powi (k - 52) = of_int (n * 2 ^ j)"
    by (simp add: p)
  then have "round_half_even (?x / 2 powi (k - 52)) = n * 2 ^ j"
    by (simp only: round_half_even_of_int)
  then show ?thesis
    using pos by (simp add: fl_def Let_def k_def[symmetric] p)
qed

lemma py_min_min: "py_min a b = min a b"
  by (simp add: py_min_def min_def)

lemma scale_by_bound_eq:
  assumes "extent \<noteq> 0" and "scale \<le> 1"
  shows "scale_by_bound bound extent scale = Inr (min scale (bound_ratio bound extent))"
  using assms
  by (auto simp: scale_by_bound_def bound_ratio_def py_truediv_def py_min_min min_def
      split: option.splits)

lemma scale_factor_eq:
  assumes "w \<noteq> 0" and "h \<noteq> 0"
  shows "scale_factor max_width max_height (w, h) =
           Inr (min (min 1 (bound_ratio max_width w)) (bound_ratio max_height h))"
proof -
  have "scale_by_bound max_width w 1 = Inr (min 1 (bound_ratio max_width w))"
    using assms(1) by (intro scale_by_bound_eq) simp_all
  moreover have "scale_by_bound max_height h (min 1 (bound_ratio max_width w))
      = Inr (min (min 1 (bound_ratio max_width w)) (bound_ratio max_height h))"
    using assms(2) by (intro scale_by_bound_eq) simp_all
  ultimately show ?thesis by (simp add: scale_factor_def)
qed

lemma bound_ratio_nonneg:
  assumes "0 < extent" and "\<forall>b. bound = Some b \<longrightarrow> 0 \<le> b"
  shows "0 \<le> bound_ratio bound extent"
  using assms by (auto simp: bound_ratio_def intro!: fl_nonneg split: option.splits)

lemma times_ulp_factor_eq: "y * ulp_factor = y + y / 2 ^ 53"
  by (simp add: ulp_factor_def distrib_left)

lemma small_ulp:
  assumes "0 \<le> (x::rat)" and "x < 2 ^ 50"
  shows "x / 2 ^ 53 < 1 / 8"
proof -
  have "x / 2 ^ 53 < 2 ^ 50 / (2 ^ 53 :: rat)"
    using assms(2) by (intro divide_strict_right_mono) simp_all
  then show ?thesis by simp
qed

lemma times_ulp_factor:
  assumes "0 \<le> x" and "x < 2 ^ 50"
  shows "x * ulp_factor < x + 1 / 8"
  using small_ulp[OF assms] by (simp add: times_ulp_factor_eq)

lemma ulp_factor_pos: "0 < ulp_factor" "1 \<le> ulp_factor" "ulp_factor < 2"
  by (simp_all add: ulp_factor_def)

lemma times_ulp_factor_twice:
  assumes "0 \<le> x" and "x < 2 ^ 50"
  shows "x * ulp_factor * ulp_factor < x + 1"
proof -
  have a: "x * ulp_factor < x + 1 / 8" by (rule times_ulp_factor[OF assms])
  have b: "0 \<le> x * ulp_factor" using assms(1) ulp_factor_pos(1) by simp
  have "x * ulp_factor * ulp_factor = x * ulp_factor + (x * ulp_factor) / 2 ^ 53"
    by (rule times_ulp_factor_eq)
  moreover have "(x * ulp_factor) / 2 ^ 53 < (x + 1 / 8) / 2 ^ 53"
    using a by (intro divide_strict_right_mono) simp_all
  moreover have "(x + 1 / 8) / 2 ^ 53 < 1 / 4"
    using small_ulp[OF assms] by (simp add: add_divide_distrib)
  ultimately show ?thesis using a by linarith
qed

lemma py_int_floor: "0 \<le> x \<Longrightarrow> py_int x = \<lfloor>x\<rfloor>"
  by (simp add: py_int_def)

lemma py_int_mul_float_exact:
  assumes "0 < n" and "n < 2 ^ 50"
  shows "py_int_mul_float n s = fl (of_int n * s)"
proof -
  have "n < 2 ^ 53" using assms(2) by (rule less_trans) simp
  then show ?thesis using assms(1) by (simp add: py_int_mul_float_def fl_int)
qed

lemma of_int_small:
  assumes "n < 2 ^ 50"
  shows "(of_int n :: rat) < 2 ^ 50"
  using assms by (metis of_int_less_iff of_int_numeral of_int_power)

lemma scaled_extent_le:
  assumes "0 < n" and "n < 2 ^ 50" and "0 \<le> s" and "s \<le> 1"
  shows "py_int (py_int_mul_float n s) \<le> n"
proof -
  let ?x = "of_int n :: rat"
  have x: "0 < ?x" "?x < 2 ^ 50" using assms(1) of_int_small[OF assms(2)] by simp_all
  have p: "0 \<le> ?x * s" using x assms(3) by simp
  have "fl (?x * s) \<le> ?x * s * ulp_factor" by (rule fl_upper[OF p])
  also have "\<dots> \<le> ?x * 1 * ulp_factor"
    using assms(4) x ulp_factor_pos(1) by (intro mult_right_mono mult_left_mono) simp_all
  also have "\<dots> < ?x + 1" using times_ulp_factor[of ?x] x by simp
  finally have "fl (?x * s) < ?x + 1" .
  then have "\<lfloor>fl (?x * s)\<rfloor> \<le> n" by (simp add: floor_le_iff)
  then show ?thesis
    using fl_nonneg[OF p] by (simp add: py_int_mul_float_exact[OF assms(1,2)] py_int_floor)
qed

lemma scaled_extent_bound:
  assumes "0 < n" and "n < 2 ^ 50" and "0 \<le> b" and "b < n"
      and "0 \<le> s" and "s \<le> fl (of_int b / of_int n)"
  shows "py_int (py_int_mul_float n s) \<le> b"
proof -
  let ?x = "of_int n :: rat"
  let ?b = "of_int b :: rat"
  have x: "0 < ?x" "?x < 2 ^ 50" using assms(1) of_int_small[OF assms(2)] by simp_all
  have b: "0 \<le> ?b" "?b < 2 ^ 50"
    using assms(3,4) x by (simp, metis less_trans of_int_less_iff)
  have p: "0 \<le> ?x * s" using x assms(5) by simp
  have q: "0 \<le> ?b / ?x" using b x by simp
  have "fl (?x * s) \<le> ?x * s * ulp_factor" by (rule fl_upper[OF p])
  also have "\<dots> \<le> ?x * fl (?b / ?x) * ulp_factor"
    using assms(6) x ulp_factor_pos(1) by (intro mult_right_mono mult_left_mono) simp_all
  also have "\<dots> \<le> ?x * (?b / ?x * ulp_factor) * ulp_factor"
    using fl_upper[OF q] x ulp_factor_pos(1) by (intro mult_right_mono mult_left_mono) simp_all
  also have "\<dots> = ?b * ulp_factor * ulp_factor" using x by simp
  also have "\<dots> < ?b + 1" by (rule times_ulp_factor_twice[OF b])
  finally have "fl (?x * s) < ?b + 1" .
  then have "\<lfloor>fl (?x * s)\<rfloor> \<le> b" by (simp add: floor_le_iff)
  then show ?thesis
    using fl_nonneg[OF p] by (simp add: py_int_mul_float_exact[OF assms(1,2)] py_int_floor)
qed

lemma bound_ratio_below_one:
  assumes "0 < n" and "n < 2 ^ 50" and "0 \<le> b" and "b < n"
  shows "fl (of_int b / of_int n) < 1"
proof -
  let ?x = "of_int n :: rat"
  let ?b = "of_int b :: rat"
  have x: "0 < ?x" "?x < 2 ^ 50" using assms(1) of_int_small[OF assms(2)] by simp_all
  have b: "0 \<le> ?b" using assms(3) by simp
  have "b \<le> n - 1" using assms(4) by simp
  then have b1: "?b \<le> ?x - 1" by (metis of_int_le_iff of_int_diff of_int_1)
  have q: "0 \<le> ?b / ?x" using b x by simp
  have "fl (?b / ?x) \<le> ?b / ?x * ulp_factor" by (rule fl_upper[OF q])
  also have "\<dots> \<le> (?x - 1) / ?x * ulp_factor"
    using b1 x ulp_factor_pos(1) by (intro mult_right_mono divide_right_mono) simp_all
  also have "\<dots> < 1"
  proof -
    have "(?x - 1) * ulp_factor = ?x - 1 + (?x - 1) / 2 ^ 53"
      by (rule times_ulp_factor_eq)
    moreover have "(?x - 1) / 2 ^ 53 < 1 / 8"
    proof -
      have "(?x - 1) / 2 ^ 53 \<le> ?x / 2 ^ 53" by (intro divide_right_mono) simp_all
      also have "\<dots> < 1 / 8" using small_ulp[of ?x] x by simp
      finally show ?thesis .
    qed
    ultimately have "(?x - 1) * ulp_factor < ?x" by linarith
    then have "(?x - 1) * ulp_factor / ?x < 1" using x by (simp add: divide_less_eq)
    then show ?thesis by (simp add: mult.commute)
  qed
  finally show ?thesis .
qed

lemma fl_quarter: "fl (1 / 4) = 1 / 4"
  by code_simp

lemma resize_example: "resize_target (Some 1000) None (4000, 2000) = Inr (Some (1000, 500))"
proof -
  have s: "scale_factor (Some 1000) None (4000, 2000) = Inr (1 / 4)"
    by (simp add: scale_factor_eq bound_ratio_def fl_quarter)
  have a: "py_int_mul_float 4000 (1 / 4) = 1000"
    using fl_int[of 1000] by (simp add: py_int_mul_float_exact)
  have b: "py_int_mul_float 2000 (1 / 4) = 500"
    using fl_int[of 500] by (simp add: py_int_mul_float_exact)
  show ?thesis
    by (simp add: resize_target_def s a b py_int_def)
qed

lemma prepare_image_saved:
  assumes "compress_image env cfg cdir fs image_path file_hash = (Some cached, fs', steps)"
      and "fs image_path = Some content"
  shows "\<exists>out encoded.
           prepare_image env cfg (path_suffix image_path) content = Some out \<and>
           pil_save env out (file_hash @ path_suffix image_path)
             (save_kwargs cfg (path_suffix image_path)) = Saved encoded \<and>
           fs' cached = Some encoded"
  using assms
  by (auto simp: compress_image_def Let_def split: option.splits save_result.splits if_splits)

text \<open>
  Claim C7.  Let \<^verbatim>\<open>_compress_image\<close> have opened, oriented and flattened an image of
  positive width \<open>w\<close> and height \<open>h\<close> below \<open>2 ^ 50\<close>, with bounds that are not negative,
  and let \<^verbatim>\<open>img.resize\<close> return, when it returns, an image of the size it is asked
  for.  The code computes one scale factor, the minimum of 1, of the rounded ratio of the
  maximum width to \<open>w\<close> when \<open>w\<close> exceeds it, and of the rounded ratio of the maximum
  height to \<open>h\<close> when \<open>h\<close> exceeds it; it resizes only when that factor is below 1, both
  sides by the same factor, and otherwise keeps the image it has.  The image it goes on to
  save is no wider than \<open>w\<close> and than the maximum width, and no higher than \<open>h\<close> and
  than the maximum height; an image within its bounds is saved as it is; whenever \<^verbatim>\<open>_compress_image\<close>
  returns a path, the bytes at that path are those that \<^verbatim>\<open>save\<close> wrote for that image;
  and a 4000 by 2000 image with maximum width 1000 and no maximum height is resized to
  exactly 1000 by 500.
\<close>

theorem resize_keeps_within_bounds:
  assumes "load_image env (path_suffix image_path) content = Some rgb"
      and "pil_size env rgb = (w, h)"
      and "0 < w" and "w < 2 ^ 50" and "0 < h" and "h < 2 ^ 50"
      and "\<forall>b. image_max_width cfg = Some b \<longrightarrow> 0 \<le> b"
      and "\<forall>b. image_max_height cfg = Some b \<longrightarrow> 0 \<le> b"
      and "\<forall>img new_size resized.
             pil_resize env img new_size = Some resized \<longrightarrow> pil_size env resized = new_size"
  shows "(\<exists>s. s = min (min 1 (bound_ratio (image_max_width cfg) w))
                      (bound_ratio (image_max_height cfg) h) \<and>
              scale_factor (image_max_width cfg) (image_max_height cfg) (w, h) = Inr s \<and>
              prepare_image env cfg (path_suffix image_path) content =
                (if s < 1
                 then pil_resize env rgb (py_int (py_int_mul_float w s), py_int (py_int_mul_float h s))
                 else Some rgb)) \<and>
         (\<forall>out. prepare_image env cfg (path_suffix image_path) content = Some out \<longrightarrow>
            fst (pil_size env out) \<le> w \<and> snd (pil_size env out) \<le> h \<and>
            (\<forall>b. image_max_width cfg = Some b \<longrightarrow> fst (pil_size env out) \<le> b) \<and>
            (\<forall>b. image_max_height cfg = Some b \<longrightarrow> snd (pil_size env out) \<le> b)) \<and>
         ((\<forall>b. image_max_width cfg = Some b \<longrightarrow> w \<le> b) \<and>
          (\<forall>b. image_max_height cfg = Some b \<longrightarrow> h \<le> b) \<longrightarrow>
            prepare_image env cfg (path_suffix image_path) content = Some rgb) \<and>
         (\<forall>cdir fs file_hash cached fs' steps.
            fs image_path = Some content \<and>
            compress_image env cfg cdir fs image_path file_hash = (Some cached, fs', steps) \<longrightarrow>
            (\<exists>out encoded.
               prepare_image env cfg (path_suffix image_path) content = Some out \<and>
               pil_save env out (file_hash @ path_suffix image_path)
                 (save_kwargs cfg (path_suffix image_path)) = Saved encoded \<and>
               fs' cached = Some encoded)) \<and>
         (image_max_width cfg = Some 1000 \<and> image_max_height cfg = None \<and> w = 4000 \<and> h = 2000 \<longrightarrow>
            prepare_image env cfg (path_suffix image_path) content = pil_resize env rgb (1000, 500))"
proof -
  let ?mw = "image_max_width cfg" and ?mh = "image_max_height cfg"
  let ?prepared = "prepare_image env cfg (path_suffix image_path) content"
  define rw where "rw = bound_ratio ?mw w"
  define rh where "rh = bound_ratio ?mh h"
  define s where "s = min (min 1 rw) rh"
  define tw where "tw = py_int (py_int_mul_float w s)"
  define th where "th = py_int (py_int_mul_float h s)"
  have rw0: "0 \<le> rw" unfolding rw_def using assms(3,7) by (intro bound_ratio_nonneg)
  have rh0: "0 \<le> rh" unfolding rh_def using assms(5,8) by (intro bound_ratio_nonneg)
  have s0: "0 \<le> s" and s1: "s \<le> 1" and srw: "s \<le> rw" and srh: "s \<le> rh"
    using rw0 rh0 by (simp_all add: s_def)
  have sf: "scale_factor ?mw ?mh (w, h) = Inr s"
    using assms(3,5) by (simp add: scale_factor_eq s_def rw_def rh_def)
  have unbounded: "s = 1" if "?mw = None" "?mh = None"
    using that by (simp add: s_def rw_def rh_def bound_ratio_def)
  have rt: "resize_target ?mw ?mh (w, h) = Inr (if s < 1 then Some (tw, th) else None)"
    using unbounded by (auto simp: resize_target_def sf tw_def th_def)
  have prep: "?prepared = (if s < 1 then pil_resize env rgb (tw, th) else Some rgb)"
    by (simp add: prepare_image_def resize_image_def assms(1,2) rt)
  have wide: "rw < 1" if "?mw = Some b" "b < w" for b
    using that assms(3,4,7) bound_ratio_below_one[of w b]
    by (simp add: rw_def bound_ratio_def)
  have high: "rh < 1" if "?mh = Some b" "b < h" for b
    using that assms(5,6,8) bound_ratio_below_one[of h b]
    by (simp add: rh_def bound_ratio_def)
  have tw_le: "tw \<le> w" unfolding tw_def by (rule scaled_extent_le[OF assms(3,4) s0 s1])
  have th_le: "th \<le> h" unfolding th_def by (rule scaled_extent_le[OF assms(5,6) s0 s1])
  have size_out: "pil_size env out = (if s < 1 then (tw, th) else (w, h))"
    if "?prepared = Some out" for out
    using that assms(2,9) by (auto simp: prep split: if_splits)
  have ow: "fst (pil_size env out) \<le> w" and oh: "snd (pil_size env out) \<le> h"
    if "?prepared = Some out" for out
    using size_out[OF that] tw_le th_le by (simp_all split: if_splits)
  have bw: "fst (pil_size env out) \<le> b" if p: "?prepared = Some out" and mw: "?mw = Some b" for out b
  proof (cases "b < w")
    case False
    with ow[OF p] show ?thesis by simp
  next
    case True
    from mw assms(7) have b0: "0 \<le> b" by simp
    from wide[OF mw True] srw have "s < 1" by simp
    moreover have "s \<le> fl (of_int b / of_int w)"
      using srw mw True by (simp add: rw_def bound_ratio_def)
    ultimately show ?thesis
      using scaled_extent_bound[OF assms(3,4) b0 True s0] size_out[OF p] by (simp add: tw_def)
  qed
  have bh: "snd (pil_size env out) \<le> b" if p: "?prepared = Some out" and mh: "?mh = Some b" for out b
  proof (cases "b < h")
    case False
    with oh[OF p] show ?thesis by simp
  next
    case True
    from mh assms(8) have b0: "0 \<le> b" by simp
    from high[OF mh True] srh have "s < 1" by simp
    moreover have "s \<le> fl (of_int b / of_int h)"
      using srh mh True by (simp add: rh_def bound_ratio_def)
    ultimately show ?thesis
      using scaled_extent_bound[OF assms(5,6) b0 True s0] size_out[OF p] by (simp add: th_def)
  qed
  have within: "?prepared = Some rgb"
    if "\<forall>b. ?mw = Some b \<longrightarrow> w \<le> b" "\<forall>b. ?mh = Some b \<longrightarrow> h \<le> b"
  proof -
    have "rw = 1" using that(1) by (auto simp: rw_def bound_ratio_def split: option.splits)
    moreover have "rh = 1" using that(2) by (auto simp: rh_def bound_ratio_def split: option.splits)
    ultimately have "s = 1" by (simp add: s_def)
    then show ?thesis by (simp add: prep)
  qed
  have example: "?prepared = pil_resize env rgb (1000, 500)"
    if "?mw = Some 1000" "?mh = None" "w = 4000" "h = 2000"
    using that assms(1,2) by (simp add: prepare_image_def resize_image_def resize_example)
  have first: "\<exists>s. s = min (min 1 (bound_ratio ?mw w)) (bound_ratio ?mh h) \<and>
              scale_factor ?mw ?mh (w, h) = Inr s \<and>
              ?prepared =
                (if s < 1
                 then pil_resize env rgb (py_int (py_int_mul_float w s), py_int (py_int_mul_float h s))
                 else Some rgb)"
    using sf prep by (simp add: s_def rw_def rh_def tw_def th_def)
  show ?thesis
    using first ow oh bw bh within example prepare_image_saved by blast
qed

theorem resize_keeps_within_bounds_witness:
  "load_image sized_env (path_suffix [''site'', ''a.png'']) ''abc'' = Some (4000, 2000) \<and>
   pil_size sized_env (4000, 2000) = (4000, 2000) \<and>
   (0::int) < 4000 \<and> (4000::int) < 2 ^ 50 \<and> (0::int) < 2000 \<and> (2000::int) < 2 ^ 50 \<and>
   image_max_width narrow_config = Some 1000 \<and> image_max_height narrow_config = None \<and>
   prepare_image sized_env narrow_config (path_suffix [''site'', ''a.png'']) ''abc'' = Some (1000, 500) \<and>
   pil_size sized_env (1000, 500) = (1000, 500) \<and>
   compress_image sized_env narrow_config [''cache''] demo_files [''site'', ''a.png''] ''cba'' =
     (Some [''cache'', ''cba.png''], demo_files([''cache'', ''cba.png''] \<mapsto> ''1000x500''),
      [PilOpen [''site'', ''a.png''], PilSave [''cache'', ''cba.png'']])"
proof -
  have loaded: "load_image sized_env (path_suffix [''site'', ''a.png'']) ''abc'' = Some (4000, 2000)"
    by (simp add: load_image_def sized_env_def)
  have size: "pil_size sized_env (4000, 2000) = (4000, 2000)"
    by (simp add: sized_env_def)
  have dims: "(0::int) < 4000" "(4000::int) < 2 ^ 50" "(0::int) < 2000" "(2000::int) < 2 ^ 50"
    by simp_all
  have mw: "image_max_width narrow_config = Some 1000" and mh: "image_max_height narrow_config = None"
    by (simp_all add: narrow_config_def default_config_def)
  have bounds: "\<forall>b. image_max_width narrow_config = Some b \<longrightarrow> 0 \<le> b"
    "\<forall>b. image_max_height narrow_config = Some b \<longrightarrow> 0 \<le> b"
    by (simp_all add: mw mh)
  have resized: "\<forall>img new_size resized.
      pil_resize sized_env img new_size = Some resized \<longrightarrow> pil_size sized_env resized = new_size"
    by (simp add: sized_env_def)
  from resize_keeps_within_bounds [OF loaded size dims bounds resized] mw mh
  have "prepare_image sized_env narrow_config (path_suffix [''site'', ''a.png'']) ''abc'' =
          pil_resize sized_env (4000, 2000) (1000, 500)"
    by blast
  then have prepared:
    "prepare_image sized_env narrow_config (path_suffix [''site'', ''a.png'']) ''abc'' = Some (1000, 500)"
    by (simp add: sized_env_def)
  have small: "pil_size sized_env (1000, 500) = (1000, 500)"
    by (simp add: sized_env_def)
  have w: "str_int 1000 = ''1000''" by code_simp
  have h: "str_int 500 = ''500''" by code_simp
  have saved: "pil_save sized_env (1000, 500) name kwargs = Saved ''1000x500''" for name kwargs
    by (simp add: sized_env_def w h)
  have original: "demo_files [''site'', ''a.png''] = Some ''abc''"
    by (simp add: demo_files_def)
  have run: "compress_image sized_env narrow_config [''cache''] demo_files [''site'', ''a.png''] ''cba'' =
     (Some [''cache'', ''cba.png''], demo_files([''cache'', ''cba.png''] \<mapsto> ''1000x500''),
      [PilOpen [''site'', ''a.png''], PilSave [''cache'', ''cba.png'']])"
    by (simp add: compress_image_def original prepared[unfolded suffix_png] saved suffix_png path_div_def
        stats_ok_def Let_def)
  from loaded size dims mw mh prepared small run show ?thesis by (intro conjI)
qed

end
